theory Spec2Isabelle
  imports Complex_Main
begin

section \<open>Errors, sequencing and array primitives\<close>

text \<open>
  The kernels of \<^verbatim>\<open>convst/transformers/_multivariate_same_length.py\<close> are embedded as
  HOL functions. Floating-point numbers are real numbers. Exceptions are values:
  \<open>ValueError\<close>, \<open>IndexError\<close>, \<open>ZeroDivisionError\<close> and \<open>TypeError\<close> stand for the
  exceptions numpy raises. \<open>NonFinite\<close> is no exception of the source: the embedding stops with it where
  the source goes on computing with \<open>-inf\<close> or \<open>nan\<close> (the logarithm of a quotient that is
  not positive), which real numbers do not have. No statement below counts \<open>NonFinite\<close>
  as a failure or as a success of the source. The \<open>prange\<close> loops are run in index
  order, as numba runs them without its parallel target; the generation is embedded a
  second time as numba runs it with the parallel target, where the draws made inside its
  \<open>prange\<close> use the generators of numba's threads.
\<close>

datatype error = ValueError | IndexError | ZeroDivisionError | TypeError | NonFinite

definition bind_e :: "error + 'a \<Rightarrow> ('a \<Rightarrow> error + 'b) \<Rightarrow> error + 'b" where
  "bind_e m f = (case m of Inl e \<Rightarrow> Inl e | Inr x \<Rightarrow> f x)"

text \<open>A \<open>for\<close> loop over a list whose body may raise: the first error ends the loop.\<close>

fun efold :: "('b \<Rightarrow> 's \<Rightarrow> error + 's) \<Rightarrow> 'b list \<Rightarrow> 's \<Rightarrow> error + 's" where
  "efold f [] s = Inr s"
| "efold f (x # xs) s = bind_e (f x s) (efold f xs)"

text \<open>\<open>concatenate((zeros(1), cumsum(xs)))\<close>: the running sums, starting with 0.\<close>

fun cumsum_from :: "nat \<Rightarrow> nat list \<Rightarrow> nat list" where
  "cumsum_from acc [] = []"
| "cumsum_from acc (x # xs) = (acc + x) # cumsum_from (acc + x) xs"

definition cumsum :: "nat list \<Rightarrow> nat list" where
  "cumsum xs = cumsum_from 0 xs"

definition offsets :: "nat list \<Rightarrow> nat list" where
  "offsets xs = 0 # cumsum xs"

text \<open>\<open>unique(xs)\<close>: the distinct elements in increasing order.\<close>

definition unique :: "nat list \<Rightarrow> nat list" where
  "unique xs = sort (remdups xs)"

text \<open>\<open>where(xs == v)[0]\<close>: the indices holding \<open>v\<close>, increasing.\<close>

definition where_eq :: "'a list \<Rightarrow> 'a \<Rightarrow> nat list" where
  "where_eq xs v = filter (\<lambda>i. xs ! i = v) [0..<length xs]"

text \<open>
  The end of the slice \<open>a[:k]\<close> on an axis of size \<open>n\<close>: a negative \<open>k\<close> counts from the
  end of the axis, and the slice is clipped to the axis.
\<close>

definition slice_stop :: "nat \<Rightarrow> int \<Rightarrow> nat" where
  "slice_stop n k = (if k < 0 then nat (int n + k) else min (nat k) n)"

text \<open>
  The slice assignment \<open>xs[a:b] = v\<close> with \<open>0 \<le> a\<close> and \<open>0 \<le> b\<close>: the slice is clipped
  to the array, \<open>v\<close> must have the length of the slice, or length 1 (numpy broadcasts
  it), and anything else is a \<open>ValueError\<close>.
\<close>

definition set_slice :: "'a list \<Rightarrow> nat \<Rightarrow> nat \<Rightarrow> 'a list \<Rightarrow> error + 'a list" where
  "set_slice xs a b v =
     (let n = length xs; a' = min a n; b' = max a' (min b n) in
      if length v = b' - a' then Inr (take a' xs @ v @ drop b' xs)
      else if length v = 1 then Inr (take a' xs @ replicate (b' - a') (hd v) @ drop b' xs)
      else Inl ValueError)"

text \<open>The slice \<open>xs[a:b]\<close> read, with \<open>0 \<le> a\<close> and \<open>0 \<le> b\<close>.\<close>

definition slice :: "'a list \<Rightarrow> nat \<Rightarrow> nat \<Rightarrow> 'a list" where
  "slice xs a b = take (b - a) (drop a xs)"

section \<open>The random generator\<close>

text \<open>
  numpy's global generator is a library of its own. Its state is a stream of raw numbers
  and a position in it; \<open>seed\<close> replaces the state by the stream the library gives for
  that seed (the parameter \<open>mt\<close> of the functions below), whatever the state was. Every
  draw takes the next raw number. Since the stream is arbitrary, every sequence of
  outcomes the library can produce is covered.
\<close>

record rng_state =
  stream :: "nat \<Rightarrow> nat"
  pos :: nat

definition seed :: "(int \<Rightarrow> nat \<Rightarrow> nat) \<Rightarrow> int \<Rightarrow> rng_state \<Rightarrow> rng_state" where
  "seed mt r g = \<lparr>stream = mt r, pos = 0\<rparr>"

definition next_raw :: "rng_state \<Rightarrow> nat \<times> rng_state" where
  "next_raw g = (stream g (pos g), g\<lparr>pos := Suc (pos g)\<rparr>)"

text \<open>An index below \<open>n\<close> (for \<open>0 < n\<close>), and \<open>random()\<close>: a number in \<open>[0, 1)\<close>.\<close>

definition rand_below :: "nat \<Rightarrow> rng_state \<Rightarrow> nat \<times> rng_state" where
  "rand_below n g = (let (r, g') = next_raw g in (r mod n, g'))"

definition random_sample :: "rng_state \<Rightarrow> real \<times> rng_state" where
  "random_sample g = (let (r, g') = next_raw g in (real (r mod 2 ^ 53) / 2 ^ 53, g'))"

text \<open>\<open>uniform(low, high)\<close> is \<open>low + (high - low) * random()\<close>.\<close>

definition uniform :: "real \<Rightarrow> real \<Rightarrow> rng_state \<Rightarrow> real \<times> rng_state" where
  "uniform low high g = (let (u, g') = random_sample g in (low + (high - low) * u, g'))"

text \<open>One draw for each element of a list, in order, threading the generator.\<close>

fun smap :: "('a \<Rightarrow> rng_state \<Rightarrow> 'b \<times> rng_state) \<Rightarrow> 'a list \<Rightarrow> rng_state
    \<Rightarrow> 'b list \<times> rng_state" where
  "smap f [] g = ([], g)"
| "smap f (x # xs) g =
     (let (y, g1) = f x g; (ys, g2) = smap f xs g1 in (y # ys, g2))"

fun esmap :: "('a \<Rightarrow> rng_state \<Rightarrow> error + 'b \<times> rng_state) \<Rightarrow> 'a list \<Rightarrow> rng_state
    \<Rightarrow> error + 'b list \<times> rng_state" where
  "esmap f [] g = Inr ([], g)"
| "esmap f (x # xs) g =
     bind_e (f x g) (\<lambda>(y, g1). bind_e (esmap f xs g1) (\<lambda>(ys, g2). Inr (y # ys, g2)))"

text \<open>\<open>choice(xs)\<close>: one element of a non-empty array.\<close>

definition choice :: "'a list \<Rightarrow> rng_state \<Rightarrow> error + 'a \<times> rng_state" where
  "choice xs g =
     (if xs = [] then Inl ValueError
      else let (k, g') = rand_below (length xs) g in Inr (xs ! k, g'))"

text \<open>\<open>choice(xs, size=n)\<close>: \<open>n\<close> elements with replacement; an empty \<open>xs\<close> is an error
  unless no element is asked for.\<close>

definition choice_size :: "'a list \<Rightarrow> nat \<Rightarrow> rng_state \<Rightarrow> error + 'a list \<times> rng_state" where
  "choice_size xs n g =
     (if n = 0 then Inr ([], g)
      else if xs = [] then Inl ValueError
      else Inr (smap (\<lambda>_ h. let (k, h') = rand_below (length xs) h in (xs ! k, h'))
                  (replicate n ()) g))"

text \<open>\<open>choice(xs, k, replace=False)\<close>: \<open>k\<close> distinct positions of \<open>xs\<close>, each drawn from
  what is left; asking for more than there is is a \<open>ValueError\<close>.\<close>

fun draw_distinct :: "nat \<Rightarrow> 'a list \<Rightarrow> rng_state \<Rightarrow> 'a list \<times> rng_state" where
  "draw_distinct 0 pool g = ([], g)"
| "draw_distinct (Suc k) pool g =
     (let (j, g1) = rand_below (length pool) g;
          (rest, g2) = draw_distinct k (take j pool @ drop (Suc j) pool) g1
      in (pool ! j # rest, g2))"

definition choice_no_replace :: "'a list \<Rightarrow> nat \<Rightarrow> rng_state \<Rightarrow> error + 'a list \<times> rng_state" where
  "choice_no_replace xs k g =
     (if length xs < k then Inl ValueError else Inr (draw_distinct k xs g))"

section \<open>The series tensor and the subsequence extractor\<close>

text \<open>An array of shape \<open>(n_samples, n_features, n_timestamps)\<close>: its shape and its cells.\<close>

record series_tensor =
  n_samples :: nat
  n_features :: nat
  n_timestamps :: nat
  cell :: "nat \<Rightarrow> nat \<Rightarrow> nat \<Rightarrow> real"

text \<open>\<open>X[s, c]\<close>: one channel of one sample, an \<open>IndexError\<close> outside the shape.\<close>

definition channel_row :: "series_tensor \<Rightarrow> nat \<Rightarrow> nat \<Rightarrow> error + real list" where
  "channel_row X s c =
     (if s < n_samples X \<and> c < n_features X
      then Inr (map (cell X s c) [0..<n_timestamps X])
      else Inl IndexError)"

definition mean :: "real list \<Rightarrow> real" where
  "mean v = sum_list v / real (length v)"

definition std :: "real list \<Rightarrow> real" where
  "std v = sqrt (mean (map (\<lambda>x. (x - mean v)\<^sup>2) v))"

definition z_normalize :: "real list \<Rightarrow> real list" where
  "z_normalize v = map (\<lambda>x. (x - mean v) / (std v + 1 / 10 ^ 8)) v"

text \<open>
  Modelled from the spec: \<open>get_subsequence\<close> of \<^verbatim>\<open>convst/transformers/_commons.py\<close> is
  not among the sources. Section 4.1 of the specification: from a single-channel series
  of length \<open>T\<close>, a start \<open>s\<close>, a length \<open>L\<close> and a dilation \<open>d\<close>, the values
  \<open>v[k] = series[(s + k*d) mod T]\<close> with phase invariance, else \<open>v[k] = series[s + k*d]\<close>
  under the precondition \<open>s + (L-1)*d < T\<close> (an \<open>IndexError\<close> here when it fails); with
  normalization, the mean is subtracted and the result divided by the standard deviation
  plus \<open>1e-8\<close>.
\<close>

definition get_subsequence :: "real list \<Rightarrow> nat \<Rightarrow> nat \<Rightarrow> nat \<Rightarrow> bool \<Rightarrow> bool
    \<Rightarrow> error + real list" where
  "get_subsequence x s L d nrm use_phase =
     (let T = length x;
          v = (if use_phase
               then (if T = 0 \<and> 0 < L then Inl ZeroDivisionError
                     else Inr (map (\<lambda>k. x ! ((s + k * d) mod T)) [0..<L]))
               else (if 0 < L \<and> T \<le> s + (L - 1) * d then Inl IndexError
                     else Inr (map (\<lambda>k. x ! (s + k * d)) [0..<L])))
      in bind_e v (\<lambda>w. Inr (if nrm then z_normalize w else w)))"

section \<open>Parameter initialisation\<close>

text \<open>
  The shapelet set: the seven arrays the kernels pass around as a tuple. \<open>shp_values\<close>
  and \<open>normalize_flags\<close> are the source's \<open>values\<close> and \<open>normalize\<close>.
\<close>

record shapelets =
  shp_values :: "real list"
  lengths :: "nat list"
  dilations :: "nat list"
  threshold :: "real list"
  normalize_flags :: "bool list"
  n_channels :: "nat list"
  channel_ids :: "nat list"

text \<open>
  \<open>prime_up_to\<close> and \<open>choice_log\<close> of \<^verbatim>\<open>_commons.py\<close> are not among the sources; with
  the generator's seeding \<open>mt\<close> they are the parameters of the embedding.
\<close>

record externals =
  mt :: "int \<Rightarrow> nat \<Rightarrow> nat"
  prime_up_to :: "int \<Rightarrow> nat list"
  choice_log :: "nat \<Rightarrow> nat \<Rightarrow> rng_state \<Rightarrow> nat list \<times> rng_state"

text \<open>
  \<open>log2(floor_divide(n_timestamps - 1, lengths - 1))\<close> for one length. The integer
  quotient by zero is 0 in numpy, as \<open>div\<close> is in HOL; a quotient that is not positive
  has no finite logarithm. That is the case of a length of 1 and of a length above the
  timestamp count, where the quotient is 0: the source goes on with \<open>-inf\<close>, draws
  \<open>-inf\<close> or \<open>nan\<close> as the exponent and gets the dilation 0 from \<open>-inf\<close>. The
  embedding stops there with \<open>NonFinite\<close>, so a statement about a generation that
  returns speaks of lengths between 2 and the timestamp count only.
\<close>

definition upper_bound :: "nat \<Rightarrow> nat \<Rightarrow> error + real" where
  "upper_bound T L =
     (let q = (int T - 1) div (int L - 1) in
      if q \<le> 0 then Inl NonFinite else Inr (log 2 (real_of_int q)))"

fun upper_bounds :: "nat \<Rightarrow> nat list \<Rightarrow> error + real list" where
  "upper_bounds T [] = Inr []"
| "upper_bounds T (L # Ls) =
     bind_e (upper_bound T L) (\<lambda>u. bind_e (upper_bounds T Ls) (\<lambda>us. Inr (u # us)))"

text \<open>The unrestricted scheme: \<open>powers[i] = uniform(0, upper_bounds[i])\<close>, then
  \<open>floor(power(2, powers))\<close>.\<close>

definition power_dilations :: "real list \<Rightarrow> rng_state \<Rightarrow> nat list \<times> rng_state" where
  "power_dilations ubs g =
     (let (powers, g') = smap (\<lambda>ub. uniform 0 ub) ubs g
      in (map (\<lambda>p. nat \<lfloor>2 powr p\<rfloor>) powers, g'))"

text \<open>The prime scheme: the primes up to \<open>int64(2**upper_bounds.max())\<close>, and for each
  shapelet one of those up to \<open>int64(2**upper_bounds[i])\<close>, at the index \<open>choice_log\<close>
  gives.\<close>

definition prime_dilations :: "externals \<Rightarrow> real list \<Rightarrow> rng_state
    \<Rightarrow> error + nat list \<times> rng_state" where
  "prime_dilations ext ubs g =
     (if ubs = [] then Inl ValueError
      else let primes = prime_up_to ext \<lfloor>2 powr Max (set ubs)\<rfloor> in
        esmap (\<lambda>ub h.
            let shp_primes = filter (\<lambda>p. int p \<le> \<lfloor>2 powr ub\<rfloor>) primes;
                (ks, h') = choice_log ext (length shp_primes) 1 h
            in if ks = [] then Inl IndexError
               else if length shp_primes \<le> hd ks then Inl IndexError
               else Inr (shp_primes ! hd ks, h'))
          ubs g)"

definition dot :: "nat list \<Rightarrow> nat list \<Rightarrow> nat" where
  "dot xs ys = sum_list (map2 (*) xs ys)"

text \<open>The dilations, by the scheme chosen.\<close>

definition draw_dilations :: "externals \<Rightarrow> bool \<Rightarrow> real list \<Rightarrow> rng_state
    \<Rightarrow> error + nat list \<times> rng_state" where
  "draw_dilations ext prime_scheme ubs g =
     (if prime_scheme then prime_dilations ext ubs g else Inr (power_dilations ubs g))"

text \<open>The arrays returned, from what was drawn: the lengths \<open>ls\<close>, the dilations \<open>ds\<close>,
  the draws \<open>cs\<close> of \<open>choice(max_channels, size=n_shapelets)\<close> and the draws \<open>us\<close> of
  \<open>random(size=n_shapelets)\<close>.\<close>

definition init_arrays :: "nat \<Rightarrow> real \<Rightarrow> nat list \<Rightarrow> nat list \<Rightarrow> nat list \<Rightarrow> real list
    \<Rightarrow> shapelets" where
  "init_arrays n_shapelets p_norm ls ds cs us =
     \<lparr>shp_values = replicate (dot ls (map Suc cs)) 0,
      lengths = ls,
      dilations = ds,
      threshold = replicate n_shapelets 0,
      normalize_flags = map (\<lambda>u. u < p_norm) us,
      n_channels = map Suc cs,
      channel_ids = replicate (sum_list (map Suc cs)) 0\<rparr>"

definition M_SL_init_random_shapelet_params :: "externals \<Rightarrow> nat \<Rightarrow> nat list \<Rightarrow> nat
    \<Rightarrow> real \<Rightarrow> nat \<Rightarrow> bool \<Rightarrow> rng_state \<Rightarrow> error + shapelets \<times> rng_state" where
  "M_SL_init_random_shapelet_params ext n_shapelets shapelet_sizes T p_norm
       max_channels prime_scheme g =
     bind_e (choice_size shapelet_sizes n_shapelets g) (\<lambda>(ls, g1).
     bind_e (upper_bounds T ls) (\<lambda>ubs.
     bind_e (draw_dilations ext prime_scheme ubs g1) (\<lambda>(ds, g2).
     bind_e (choice_size [0..<max_channels] n_shapelets g2) (\<lambda>(cs, g3).
       case smap (\<lambda>_. random_sample) (replicate n_shapelets ()) g3 of (us, g4) \<Rightarrow>
         Inr (init_arrays n_shapelets p_norm ls ds cs us, g4)))))"

section \<open>Shapelet generation\<close>

text \<open>The arrays of \<open>M_SL_generate_shapelet\<close>: the shapelet set, the provenance arrays,
  the two masks, the two offset arrays and the generator.\<close>

record gen_state = shapelets +
  id_samples :: "nat list"
  start_positions :: "nat list"
  mask_sampling :: "bool list list list list list"
  mask_return :: "bool list"
  a1 :: "nat list"
  a2 :: "nat list"
  rng :: rng_state

definition ones5 :: "nat \<Rightarrow> nat \<Rightarrow> nat \<Rightarrow> nat \<Rightarrow> nat \<Rightarrow> bool list list list list list" where
  "ones5 a b c d e = replicate a (replicate b (replicate c (replicate d (replicate e True))))"

text \<open>The state when the loops start: the generator seeded, the parameters drawn, the
  provenance arrays zero, both masks all true.\<close>

definition init_state :: "externals \<Rightarrow> series_tensor \<Rightarrow> nat \<Rightarrow> nat list \<Rightarrow> int \<Rightarrow> real
    \<Rightarrow> nat \<Rightarrow> bool \<Rightarrow> rng_state \<Rightarrow> error + gen_state" where
  "init_state ext X n_shapelets shapelet_sizes r_seed p_norm max_channels prime_scheme g0 =
     bind_e (M_SL_init_random_shapelet_params ext n_shapelets shapelet_sizes
               (n_timestamps X) p_norm max_channels prime_scheme (seed (mt ext) r_seed g0))
       (\<lambda>(S, g).
         Inr (shapelets.extend S
           \<lparr>id_samples = replicate n_shapelets 0,
            start_positions = replicate n_shapelets 0,
            mask_sampling = ones5 2 (length (unique (dilations S))) (n_samples X)
                              (n_features X) (n_timestamps X),
            mask_return = replicate n_shapelets True,
            a1 = offsets (map2 (*) (n_channels S) (lengths S)),
            a2 = offsets (n_channels S),
            rng = g\<rparr>))"

definition d_shape_of :: "bool \<Rightarrow> nat \<Rightarrow> nat \<Rightarrow> nat \<Rightarrow> int" where
  "d_shape_of use_phase T L d = (if use_phase then int T else int T - (int L - 1) * int d)"

text \<open>\<open>where(mask_dil[:, :, :d_shape].sum(axis=1) >= thr)\<close>: the (sample, position)
  pairs, row by row, at which enough channels of the mask are true.\<close>

definition i_mask :: "bool list list list \<Rightarrow> nat \<Rightarrow> nat \<Rightarrow> nat \<Rightarrow> int \<Rightarrow> real
    \<Rightarrow> (nat \<times> nat) list" where
  "i_mask mask_dil ns nf T d_shape thr =
     concat (map (\<lambda>s. map (\<lambda>p. (s, p))
        (filter (\<lambda>p. thr \<le> real (length (filter (\<lambda>c. mask_dil ! s ! c ! p) [0..<nf])))
           [0..<slice_stop T d_shape]))
        [0..<ns])"

text \<open>The loop over the chosen channels: each subsequence goes to its \<open>_values[a3:b3]\<close>.\<close>

fun fill_values :: "series_tensor \<Rightarrow> nat \<Rightarrow> nat \<Rightarrow> nat \<Rightarrow> nat \<Rightarrow> bool \<Rightarrow> bool
    \<Rightarrow> nat list \<Rightarrow> nat \<Rightarrow> real list \<Rightarrow> error + real list" where
  "fill_values X s p L d nrm use_phase [] a3 vals = Inr vals"
| "fill_values X s p L d nrm use_phase (c # cs) a3 vals =
     bind_e (channel_row X s c) (\<lambda>x.
     bind_e (get_subsequence x p L d nrm use_phase) (\<lambda>v.
     bind_e (set_slice vals a3 (a3 + L) v) (\<lambda>vals'.
       fill_values X s p L d nrm use_phase cs (a3 + L) vals')))"

text \<open>The candidates of the shapelet \<open>i_shp\<close> in the dilation group \<open>i_d\<close>: \<open>i_mask\<close> on
  \<open>mask_sampling[norm, i_d]\<close> with the threshold \<open>_n_channels * alpha\<close>.\<close>

definition candidates :: "series_tensor \<Rightarrow> real \<Rightarrow> bool \<Rightarrow> nat \<Rightarrow> nat \<Rightarrow> gen_state
    \<Rightarrow> (nat \<times> nat) list" where
  "candidates X alpha use_phase i_d i_shp st =
     i_mask (mask_sampling st ! (if normalize_flags st ! i_shp then 1 else 0) ! i_d)
       (n_samples X) (n_features X) (n_timestamps X)
       (d_shape_of use_phase (n_timestamps X) (lengths st ! i_shp) (dilations st ! i_shp))
       (real (n_channels st ! i_shp) * alpha)"

text \<open>The branch taken when there are candidates \<open>im\<close>: a sample, a start position of
  that sample, the channels, the values, and the writes to the arrays.\<close>

definition sample_shapelet :: "series_tensor \<Rightarrow> bool \<Rightarrow> nat \<Rightarrow> (nat \<times> nat) list \<Rightarrow> gen_state
    \<Rightarrow> error + gen_state" where
  "sample_shapelet X use_phase i_shp im st =
     bind_e (choice (map fst im) (rng st)) (\<lambda>(id_sample, g1).
     bind_e (choice (map snd (filter (\<lambda>sp. fst sp = id_sample) im)) g1)
       (\<lambda>(start_position, g2).
     bind_e (choice_no_replace [0..<n_features X] (n_channels st ! i_shp) g2) (\<lambda>(chs, g3).
     bind_e (fill_values X id_sample start_position (lengths st ! i_shp)
               (dilations st ! i_shp) (normalize_flags st ! i_shp) use_phase chs 0
               (replicate (n_channels st ! i_shp * lengths st ! i_shp) 0)) (\<lambda>vals.
     bind_e (set_slice (shp_values st) (a1 st ! i_shp) (a1 st ! (i_shp + 1)) vals)
       (\<lambda>values'.
     bind_e (set_slice (channel_ids st) (a2 st ! i_shp) (a2 st ! (i_shp + 1)) chs)
       (\<lambda>channel_ids'.
       Inr (st\<lparr>id_samples := (id_samples st)[i_shp := id_sample],
                start_positions := (start_positions st)[i_shp := start_position],
                shp_values := values',
                channel_ids := channel_ids',
                rng := g3\<rparr>)))))))"

text \<open>The body of the inner loop, for the shapelet \<open>i_shp\<close> of the dilation group \<open>i_d\<close>.
  Nothing in it assigns to \<open>mask_sampling\<close> or to \<open>mask_return\<close>.\<close>

definition shapelet_step :: "series_tensor \<Rightarrow> real \<Rightarrow> bool \<Rightarrow> nat \<Rightarrow> nat \<Rightarrow> gen_state
    \<Rightarrow> error + gen_state" where
  "shapelet_step X alpha use_phase i_d i_shp st =
     (let im = candidates X alpha use_phase i_d i_shp st
      in if im \<noteq> [] then sample_shapelet X use_phase i_shp im st else Inr st)"

definition generate_loop :: "series_tensor \<Rightarrow> real \<Rightarrow> bool \<Rightarrow> gen_state \<Rightarrow> error + gen_state" where
  "generate_loop X alpha use_phase st =
     efold (\<lambda>i_d. efold (shapelet_step X alpha use_phase i_d)
                     (where_eq (dilations st) (unique (dilations st) ! i_d)))
       [0..<length (unique (dilations st))] st"

text \<open>\<open>M_SL_generate_shapelet\<close>, first with all its arrays, then as it returns: the
  shapelet set, \<open>id_samples\<close> and \<open>start_positions\<close>. The labels \<open>y\<close> and the
  percentiles \<open>p_min\<close> and \<open>p_max\<close> are arguments the body never reads.\<close>

definition generate_state :: "externals \<Rightarrow> rng_state \<Rightarrow> series_tensor \<Rightarrow> int list \<Rightarrow> nat
    \<Rightarrow> nat list \<Rightarrow> int \<Rightarrow> real \<Rightarrow> real \<Rightarrow> real \<Rightarrow> real \<Rightarrow> bool \<Rightarrow> nat \<Rightarrow> bool
    \<Rightarrow> error + gen_state" where
  "generate_state ext g0 X y n_shapelets shapelet_sizes r_seed p_norm p_min p_max alpha
       use_phase max_channels prime_scheme =
     bind_e (init_state ext X n_shapelets shapelet_sizes r_seed p_norm max_channels
               prime_scheme g0)
       (generate_loop X alpha use_phase)"

definition M_SL_generate_shapelet :: "externals \<Rightarrow> rng_state \<Rightarrow> series_tensor \<Rightarrow> int list
    \<Rightarrow> nat \<Rightarrow> nat list \<Rightarrow> int \<Rightarrow> real \<Rightarrow> real \<Rightarrow> real \<Rightarrow> real \<Rightarrow> bool \<Rightarrow> nat \<Rightarrow> bool
    \<Rightarrow> error + shapelets \<times> nat list \<times> nat list" where
  "M_SL_generate_shapelet ext g0 X y n_shapelets shapelet_sizes r_seed p_norm p_min p_max
       alpha use_phase max_channels prime_scheme =
     bind_e (generate_state ext g0 X y n_shapelets shapelet_sizes r_seed p_norm p_min p_max
               alpha use_phase max_channels prime_scheme)
       (\<lambda>st. Inr (shapelets.truncate st, id_samples st, start_positions st))"

text \<open>
  The function is compiled with \<open>parallel=__USE_NUMBA_PARALLEL__\<close>, a flag set in
  \<^verbatim>\<open>convst/__init__.py\<close>, which is not among the sources. With the flag off, the
  \<open>prange\<close> over the dilation groups is the loop of \<open>generate_loop\<close>. With the flag on,
  numba runs the iterations of that \<open>prange\<close> on its threads; each thread has a generator
  state of its own, and \<open>seed(r_seed)\<close> sets the state of the thread that calls it, no
  other. \<open>threads i_d\<close> is the generator state of the thread that runs iteration \<open>i_d\<close>,
  as it is when the iteration starts, and \<open>None\<close> when that thread is the calling
  thread, whose generator the call has seeded and the initialisation has advanced. The
  iterations write to disjoint slices of the arrays, so they are run one after the other.
\<close>

definition on_thread :: "rng_state option \<Rightarrow> (gen_state \<Rightarrow> error + gen_state) \<Rightarrow> gen_state
    \<Rightarrow> error + gen_state" where
  "on_thread w body st =
     (case w of
        None \<Rightarrow> body st
      | Some g \<Rightarrow> bind_e (body (st\<lparr>rng := g\<rparr>)) (\<lambda>st'. Inr (st'\<lparr>rng := rng st\<rparr>)))"

definition generate_loop_parallel :: "(nat \<Rightarrow> rng_state option) \<Rightarrow> series_tensor \<Rightarrow> real
    \<Rightarrow> bool \<Rightarrow> gen_state \<Rightarrow> error + gen_state" where
  "generate_loop_parallel threads X alpha use_phase st =
     efold (\<lambda>i_d. on_thread (threads i_d)
                    (efold (shapelet_step X alpha use_phase i_d)
                       (where_eq (dilations st) (unique (dilations st) ! i_d))))
       [0..<length (unique (dilations st))] st"

definition M_SL_generate_shapelet_parallel :: "(nat \<Rightarrow> rng_state option) \<Rightarrow> externals
    \<Rightarrow> rng_state \<Rightarrow> series_tensor \<Rightarrow> int list \<Rightarrow> nat \<Rightarrow> nat list \<Rightarrow> int \<Rightarrow> real \<Rightarrow> real
    \<Rightarrow> real \<Rightarrow> real \<Rightarrow> bool \<Rightarrow> nat \<Rightarrow> bool \<Rightarrow> error + shapelets \<times> nat list \<times> nat list" where
  "M_SL_generate_shapelet_parallel threads ext g0 X y n_shapelets shapelet_sizes r_seed p_norm
       p_min p_max alpha use_phase max_channels prime_scheme =
     bind_e (init_state ext X n_shapelets shapelet_sizes r_seed p_norm max_channels
               prime_scheme g0) (\<lambda>st0.
     bind_e (generate_loop_parallel threads X alpha use_phase st0) (\<lambda>st.
       Inr (shapelets.truncate st, id_samples st, start_positions st)))"

section \<open>What the generation loops establish\<close>

text \<open>The subsequence of one channel, and the subsequences of a list of channels one
  after the other: what the loop over the chosen channels leaves in \<open>_values\<close>.\<close>

definition extract_channel :: "series_tensor \<Rightarrow> nat \<Rightarrow> nat \<Rightarrow> nat \<Rightarrow> nat \<Rightarrow> bool \<Rightarrow> bool \<Rightarrow> nat
    \<Rightarrow> error + real list" where
  "extract_channel X s p L d nrm use_phase c =
     bind_e (channel_row X s c) (\<lambda>x. get_subsequence x p L d nrm use_phase)"

fun extract_all :: "series_tensor \<Rightarrow> nat \<Rightarrow> nat \<Rightarrow> nat \<Rightarrow> nat \<Rightarrow> bool \<Rightarrow> bool \<Rightarrow> nat list
    \<Rightarrow> error + real list" where
  "extract_all X s p L d nrm use_phase [] = Inr []"
| "extract_all X s p L d nrm use_phase (c # cs) =
     bind_e (extract_channel X s p L d nrm use_phase c) (\<lambda>v.
     bind_e (extract_all X s p L d nrm use_phase cs) (\<lambda>vs. Inr (v @ vs)))"

text \<open>The slices of shapelet \<open>i\<close>: \<open>values[a1[i]:a1[i+1]]\<close> and
  \<open>channel_ids[a2[i]:a2[i+1]]\<close>.\<close>

definition values_slice :: "gen_state \<Rightarrow> nat \<Rightarrow> real list" where
  "values_slice st i = slice (shp_values st) (a1 st ! i) (a1 st ! (i + 1))"

definition channels_slice :: "gen_state \<Rightarrow> nat \<Rightarrow> nat list" where
  "channels_slice st i = slice (channel_ids st) (a2 st ! i) (a2 st ! (i + 1))"

text \<open>Shapelet \<open>i\<close> is populated: its provenance is a sample and a start position of
  the candidate range, its channels are distinct channels of the tensor, as many as its
  channel count, and its values are the subsequences of those channels there.\<close>

definition populated :: "series_tensor \<Rightarrow> bool \<Rightarrow> gen_state \<Rightarrow> nat \<Rightarrow> bool" where
  "populated X use_phase st i =
     (id_samples st ! i < n_samples X \<and>
      start_positions st ! i < slice_stop (n_timestamps X)
         (d_shape_of use_phase (n_timestamps X) (lengths st ! i) (dilations st ! i)) \<and>
      length (channels_slice st i) = n_channels st ! i \<and>
      distinct (channels_slice st i) \<and>
      list_all (\<lambda>c. c < n_features X) (channels_slice st i) \<and>
      extract_all X (id_samples st ! i) (start_positions st ! i) (lengths st ! i)
        (dilations st ! i) (normalize_flags st ! i) use_phase (channels_slice st i)
        = Inr (values_slice st i))"

text \<open>Shapelet \<open>i\<close> is as the initialisation left it: zero provenance, zero slices.\<close>

definition untouched :: "gen_state \<Rightarrow> nat \<Rightarrow> bool" where
  "untouched st i =
     (id_samples st ! i = 0 \<and> start_positions st ! i = 0 \<and>
      values_slice st i = replicate (n_channels st ! i * lengths st ! i) 0 \<and>
      channels_slice st i = replicate (n_channels st ! i) 0)"

text \<open>The shape of the arrays of \<open>n\<close> shapelets over the tensor \<open>X\<close>.\<close>

definition arrays_wf :: "nat \<Rightarrow> series_tensor \<Rightarrow> gen_state \<Rightarrow> bool" where
  "arrays_wf n X st =
     (length (lengths st) = n \<and> length (dilations st) = n \<and>
      length (normalize_flags st) = n \<and> length (n_channels st) = n \<and>
      length (id_samples st) = n \<and> length (start_positions st) = n \<and>
      a1 st = offsets (map2 (*) (n_channels st) (lengths st)) \<and>
      a2 st = offsets (n_channels st) \<and>
      length (shp_values st) = sum_list (map2 (*) (n_channels st) (lengths st)) \<and>
      length (channel_ids st) = sum_list (n_channels st) \<and>
      mask_sampling st = ones5 2 (length (unique (dilations st))) (n_samples X)
                           (n_features X) (n_timestamps X))"

text \<open>The arrays the loops never assign to are those of \<open>st0\<close>.\<close>

definition same_params :: "gen_state \<Rightarrow> gen_state \<Rightarrow> bool" where
  "same_params st0 st =
     (lengths st = lengths st0 \<and> dilations st = dilations st0 \<and>
      threshold st = threshold st0 \<and> normalize_flags st = normalize_flags st0 \<and>
      n_channels st = n_channels st0 \<and> a1 st = a1 st0 \<and> a2 st = a2 st0 \<and>
      mask_sampling st = mask_sampling st0 \<and> mask_return st = mask_return st0)"

text \<open>Shapelet \<open>i\<close> has a candidate while the mask is all true: a sample, a start
  position, and a threshold that the channel count of the tensor reaches.\<close>

definition admissible :: "series_tensor \<Rightarrow> real \<Rightarrow> bool \<Rightarrow> gen_state \<Rightarrow> nat \<Rightarrow> bool" where
  "admissible X alpha use_phase st i =
     (0 < n_samples X \<and>
      0 < slice_stop (n_timestamps X)
            (d_shape_of use_phase (n_timestamps X) (lengths st ! i) (dilations st ! i)) \<and>
      real (n_channels st ! i) * alpha \<le> real (n_features X))"

text \<open>The invariant of the loops: the shapelets of \<open>D\<close> have been through the body, those
  with a candidate are populated, and all others are as the initialisation left them.\<close>

definition loop_inv :: "nat \<Rightarrow> series_tensor \<Rightarrow> real \<Rightarrow> bool \<Rightarrow> gen_state \<Rightarrow> nat set
    \<Rightarrow> gen_state \<Rightarrow> bool" where
  "loop_inv n X alpha use_phase st0 D st =
     (same_params st0 st \<and> arrays_wf n X st \<and>
      (\<forall>i<n. if i \<in> D \<and> admissible X alpha use_phase st0 i
              then populated X use_phase st i else untouched st i))"

section \<open>Shapelet application\<close>

text \<open>
  \<open>M_SL_apply_all_shapelets\<close> assigns in place to \<open>strides\<close>, an array it gets from a
  helper, so the arrays it is given and the arrays it gets live in a store: a map from
  addresses to arrays, with the next free address. The arrays it makes itself with
  \<open>zeros\<close> (\<open>idx_shp\<close>, \<open>n_shp_params\<close>, \<open>X_new\<close>) are values of the embedding.
\<close>

datatype ndarray =
    Tensor series_tensor
  | Cube "real list list list"
  | FloatArray "real list"
  | IntArray "nat list"
  | BoolArray "bool list"

record heap =
  store :: "nat \<Rightarrow> ndarray option"
  next_free :: nat

definition alloc :: "ndarray \<Rightarrow> heap \<Rightarrow> nat \<times> heap" where
  "alloc a h =
     (next_free h, h\<lparr>store := (store h)(next_free h \<mapsto> a), next_free := Suc (next_free h)\<rparr>)"

definition get_tensor :: "heap \<Rightarrow> nat \<Rightarrow> error + series_tensor" where
  "get_tensor h a = (case store h a of Some (Tensor X) \<Rightarrow> Inr X | _ \<Rightarrow> Inl TypeError)"

definition get_cube :: "heap \<Rightarrow> nat \<Rightarrow> error + real list list list" where
  "get_cube h a = (case store h a of Some (Cube c) \<Rightarrow> Inr c | _ \<Rightarrow> Inl TypeError)"

definition get_floats :: "heap \<Rightarrow> nat \<Rightarrow> error + real list" where
  "get_floats h a = (case store h a of Some (FloatArray v) \<Rightarrow> Inr v | _ \<Rightarrow> Inl TypeError)"

definition get_ints :: "heap \<Rightarrow> nat \<Rightarrow> error + nat list" where
  "get_ints h a = (case store h a of Some (IntArray v) \<Rightarrow> Inr v | _ \<Rightarrow> Inl TypeError)"

definition get_bools :: "heap \<Rightarrow> nat \<Rightarrow> error + bool list" where
  "get_bools h a = (case store h a of Some (BoolArray v) \<Rightarrow> Inr v | _ \<Rightarrow> Inl TypeError)"

text \<open>The addresses of the seven arrays of a shapelet set, and the arrays read through
  them.\<close>

record shapelet_refs =
  values_at :: nat
  lengths_at :: nat
  dilations_at :: nat
  threshold_at :: nat
  normalize_at :: nat
  n_channels_at :: nat
  channel_ids_at :: nat

definition load_shapelets :: "heap \<Rightarrow> shapelet_refs \<Rightarrow> error + shapelets" where
  "load_shapelets h r =
     bind_e (get_floats h (values_at r)) (\<lambda>v.
     bind_e (get_ints h (lengths_at r)) (\<lambda>l.
     bind_e (get_ints h (dilations_at r)) (\<lambda>d.
     bind_e (get_floats h (threshold_at r)) (\<lambda>t.
     bind_e (get_bools h (normalize_at r)) (\<lambda>nr.
     bind_e (get_ints h (n_channels_at r)) (\<lambda>nc.
     bind_e (get_ints h (channel_ids_at r)) (\<lambda>ci.
       Inr \<lparr>shp_values = v, lengths = l, dilations = d, threshold = t,
            normalize_flags = nr, n_channels = nc, channel_ids = ci\<rparr>)))))))"

text \<open>An elementwise operation on two arrays: equal lengths, or one of them of length 1,
  which numpy broadcasts.\<close>

definition broadcast2 :: "('a \<Rightarrow> 'b \<Rightarrow> 'c) \<Rightarrow> 'a list \<Rightarrow> 'b list \<Rightarrow> error + 'c list" where
  "broadcast2 f xs ys =
     (if length xs = length ys then Inr (map2 f xs ys)
      else if length xs = 1 then Inr (map (f (hd xs)) ys)
      else if length ys = 1 then Inr (map (\<lambda>x. f x (hd ys)) xs)
      else Inl ValueError)"

definition nth_e :: "'a list \<Rightarrow> nat \<Rightarrow> error + 'a" where
  "nth_e xs i = (if i < length xs then Inr (xs ! i) else Inl IndexError)"

fun emap :: "('a \<Rightarrow> error + 'b) \<Rightarrow> 'a list \<Rightarrow> error + 'b list" where
  "emap f [] = Inr []"
| "emap f (x # xs) = bind_e (f x) (\<lambda>y. bind_e (emap f xs) (\<lambda>ys. Inr (y # ys)))"

text \<open>
  Modelled from the spec: \<open>_combinations_1d\<close> of \<^verbatim>\<open>_commons.py\<close> is not among the
  sources. Section 4.5: the shapelets are grouped by identical (length, dilation) pair;
  the groups are the distinct pairs.
\<close>

definition combinations_1d :: "nat list \<Rightarrow> nat list \<Rightarrow> (nat \<times> nat) list" where
  "combinations_1d ls ds = remdups (zip ls ds)"

text \<open>
  Modelled from the spec: \<open>generate_strides_2D\<close> of \<^verbatim>\<open>_commons.py\<close> is not among the
  sources. Sections 4.1, 4.5 and 5: for one series, the windows of length \<open>L\<close> and
  dilation \<open>d\<close> of every channel at every valid start position (\<open>T\<close> of them with phase
  invariance, \<open>T - (L-1)*d\<close> without), extracted by the pure extractor from an input
  that every task only reads; the result is an array of its own.
\<close>

definition window :: "series_tensor \<Rightarrow> nat \<Rightarrow> nat \<Rightarrow> nat \<Rightarrow> nat \<Rightarrow> nat \<Rightarrow> bool \<Rightarrow> real list" where
  "window X s c p L d use_phase =
     map (\<lambda>k. cell X s c (if use_phase then (p + k * d) mod n_timestamps X else p + k * d))
       [0..<L]"

definition generate_strides_2D :: "heap \<Rightarrow> nat \<Rightarrow> nat \<Rightarrow> nat \<Rightarrow> nat \<Rightarrow> bool
    \<Rightarrow> error + nat \<times> heap" where
  "generate_strides_2D h xa i_sample L d use_phase =
     bind_e (get_tensor h xa) (\<lambda>X.
       if n_samples X \<le> i_sample then Inl IndexError
       else if d_shape_of use_phase (n_timestamps X) L d < 0 then Inl ValueError
       else Inr (alloc
         (Cube (map (\<lambda>c. map (\<lambda>p. window X i_sample c p L d use_phase)
                         [0..<nat (d_shape_of use_phase (n_timestamps X) L d)])
                  [0..<n_features X])) h))"

text \<open>\<open>strides[i, j] = w\<close>, in place.\<close>

definition write_window :: "heap \<Rightarrow> nat \<Rightarrow> nat \<Rightarrow> nat \<Rightarrow> real list \<Rightarrow> error + heap" where
  "write_window h sa i j w =
     bind_e (get_cube h sa) (\<lambda>c.
       if length c \<le> i then Inl IndexError
       else if length (c ! i) \<le> j then Inl IndexError
       else if length w = length (c ! i ! j)
         then Inr (h\<lparr>store := (store h)(sa \<mapsto> Cube (c[i := (c ! i)[j := w]]))\<rparr>)
       else if length w = 1
         then Inr (h\<lparr>store := (store h)(sa \<mapsto>
                Cube (c[i := (c ! i)[j := replicate (length (c ! i ! j)) (hd w)]]))\<rparr>)
       else Inl ValueError)"

text \<open>\<open>_str = strides[i, j]; strides[i, j] = (_str - mean(_str)) / (std(_str) + 1e-8)\<close>.\<close>

definition normalize_window :: "nat \<Rightarrow> nat \<Rightarrow> nat \<Rightarrow> heap \<Rightarrow> error + heap" where
  "normalize_window sa i j h =
     bind_e (get_cube h sa) (\<lambda>c.
     bind_e (nth_e c i) (\<lambda>ci.
     bind_e (nth_e ci j) (\<lambda>str.
       write_window h sa i j (z_normalize str))))"

text \<open>The two loops over \<open>strides.shape[0]\<close> and \<open>strides.shape[1]\<close>.\<close>

definition normalize_strides :: "nat \<Rightarrow> heap \<Rightarrow> error + heap" where
  "normalize_strides sa h =
     bind_e (get_cube h sa) (\<lambda>c.
       efold (\<lambda>i. efold (normalize_window sa i) [0..<length (c ! i)]) [0..<length c] h)"

text \<open>\<open>values[a:b].reshape(r, c)\<close>.\<close>

definition reshape2 :: "real list \<Rightarrow> nat \<Rightarrow> nat \<Rightarrow> error + real list list" where
  "reshape2 xs r c =
     (if length xs = r * c then Inr (map (\<lambda>k. take c (drop (k * c) xs)) [0..<r])
      else Inl ValueError)"

text \<open>\<open>X_new[i_sample, 3*i_shp : 3*i_shp + 3] = (f1, f2, f3)\<close>.\<close>

definition write_features :: "real list list \<Rightarrow> nat \<Rightarrow> nat \<Rightarrow> real \<times> real \<times> real
    \<Rightarrow> error + real list list" where
  "write_features X_new i_sample i_shp fs =
     (case fs of (f1, f2, f3) \<Rightarrow>
        bind_e (nth_e X_new i_sample) (\<lambda>row.
        bind_e (set_slice row (3 * i_shp) (3 * i_shp + 3) [f1, f2, f3]) (\<lambda>row'.
          Inr (X_new[i_sample := row']))))"

text \<open>
  \<open>apply_one_shapelet_one_sample_multivariate\<close> of \<^verbatim>\<open>_commons.py\<close> is not among the
  sources; it is the parameter \<open>kernel\<close>: from the windows of the chosen channels, the
  values of the shapelet and its threshold, the three features of section 4.4.
\<close>

type_synonym kernel = "real list list list \<Rightarrow> real list list \<Rightarrow> real \<Rightarrow> real \<times> real \<times> real"

text \<open>The body of the loops over the shapelets of one group, for the shapelet \<open>i_shp\<close>.\<close>

definition apply_shapelet :: "kernel \<Rightarrow> heap \<Rightarrow> shapelet_refs \<Rightarrow> nat \<Rightarrow> nat list \<Rightarrow> nat list
    \<Rightarrow> nat \<Rightarrow> nat \<Rightarrow> nat \<Rightarrow> real list list \<Rightarrow> error + real list list" where
  "apply_shapelet kern h refs sa a1' a2' L i_sample i_shp X_new =
     bind_e (load_shapelets h refs) (\<lambda>S.
     bind_e (get_cube h sa) (\<lambda>strides.
     bind_e (nth_e a2' i_shp) (\<lambda>c0.
     bind_e (nth_e a2' (i_shp + 1)) (\<lambda>c1.
     bind_e (nth_e a1' i_shp) (\<lambda>v0.
     bind_e (nth_e a1' (i_shp + 1)) (\<lambda>v1.
     bind_e (nth_e (n_channels S) i_shp) (\<lambda>nc.
     bind_e (reshape2 (slice (shp_values S) v0 v1) nc L) (\<lambda>vals.
     bind_e (emap (nth_e strides) (slice (channel_ids S) c0 c1)) (\<lambda>sel.
     bind_e (nth_e (threshold S) i_shp) (\<lambda>thr.
       write_features X_new i_sample i_shp (kern sel vals thr)))))))))))"

text \<open>\<open>_idx_shp[where(normalize[_idx_shp] == flag)[0]]\<close>.\<close>

definition with_flag :: "bool list \<Rightarrow> nat list \<Rightarrow> bool \<Rightarrow> error + nat list" where
  "with_flag nrm idx flag =
     bind_e (emap (nth_e nrm) idx) (\<lambda>fl.
       Inr (map (\<lambda>k. idx ! k) (filter (\<lambda>k. fl ! k = flag) [0..<length idx])))"

text \<open>The body of the loops over the samples and the groups: the state is \<open>X_new\<close> and
  the store.\<close>

definition apply_group :: "kernel \<Rightarrow> nat \<Rightarrow> shapelet_refs \<Rightarrow> bool \<Rightarrow> (nat \<times> nat) list
    \<Rightarrow> nat list \<Rightarrow> nat list \<Rightarrow> nat list \<Rightarrow> nat list \<Rightarrow> nat \<Rightarrow> nat
    \<Rightarrow> real list list \<times> heap \<Rightarrow> error + real list list \<times> heap" where
  "apply_group kern xa refs use_phase params_shp idx_shp n_shp_params a1' a2'
       i_sample i_shp_param st =
     (case st of (X_new, h) \<Rightarrow>
     bind_e (nth_e params_shp i_shp_param) (\<lambda>(L, d).
     bind_e (generate_strides_2D h xa i_sample L d use_phase) (\<lambda>(sa, h1).
     bind_e (nth_e n_shp_params i_shp_param) (\<lambda>lo.
     bind_e (nth_e n_shp_params (i_shp_param + 1)) (\<lambda>hi.
     bind_e (load_shapelets h1 refs) (\<lambda>S.
     bind_e (with_flag (normalize_flags S) (slice idx_shp lo hi) False) (\<lambda>idx_no_norm.
     bind_e (efold (apply_shapelet kern h1 refs sa a1' a2' L i_sample) idx_no_norm X_new)
       (\<lambda>X1.
     bind_e (load_shapelets h1 refs) (\<lambda>S'.
     bind_e (with_flag (normalize_flags S') (slice idx_shp lo hi) True) (\<lambda>idx_norm.
       if idx_norm \<noteq> [] then
         bind_e (normalize_strides sa h1) (\<lambda>h2.
         bind_e (efold (apply_shapelet kern h2 refs sa a1' a2' L i_sample) idx_norm X1)
           (\<lambda>X2. Inr (X2, h2)))
       else Inr (X1, h1)))))))))))"

text \<open>The first loop: the shapelets of each group one after the other in \<open>idx_shp\<close>, and
  the size of group \<open>i\<close> at \<open>n_shp_params[i + 1]\<close>. The state is \<open>a3\<close>, \<open>idx_shp\<close> and
  \<open>n_shp_params\<close>.\<close>

definition index_group :: "nat list \<Rightarrow> nat list \<Rightarrow> (nat \<times> nat) list \<Rightarrow> nat
    \<Rightarrow> nat \<times> nat list \<times> nat list \<Rightarrow> error + nat \<times> nat list \<times> nat list" where
  "index_group ls ds params_shp i st =
     (case st of (a3, idx_shp, n_shp_params) \<Rightarrow>
     bind_e (nth_e params_shp i) (\<lambda>(L, d).
     bind_e (broadcast2 (\<and>) (map (\<lambda>l. l = L) ls) (map (\<lambda>x. x = d) ds)) (\<lambda>hit.
       let ix_shapelets = filter (\<lambda>k. hit ! k) [0..<length hit];
           b = a3 + length ix_shapelets
       in bind_e (set_slice idx_shp a3 b ix_shapelets) (\<lambda>idx_shp'.
          bind_e (if i + 1 < length n_shp_params then Inr () else Inl IndexError) (\<lambda>_.
            Inr (b, idx_shp', n_shp_params[i + 1 := length ix_shapelets]))))))"

text \<open>The offset arrays \<open>a1\<close> and \<open>a2\<close>, as \<open>M_SL_apply_all_shapelets\<close> computes them.\<close>

definition apply_offsets :: "shapelets \<Rightarrow> error + nat list \<times> nat list" where
  "apply_offsets S =
     bind_e (broadcast2 (*) (n_channels S) (lengths S)) (\<lambda>prods.
       Inr (offsets prods, offsets (n_channels S)))"

definition M_SL_apply_all_shapelets :: "kernel \<Rightarrow> heap \<Rightarrow> nat \<Rightarrow> shapelet_refs \<Rightarrow> bool
    \<Rightarrow> error + real list list \<times> heap" where
  "M_SL_apply_all_shapelets kern h xa refs use_phase =
     bind_e (load_shapelets h refs) (\<lambda>S.
     bind_e (get_tensor h xa) (\<lambda>X.
       let n_shapelets = length (lengths S);
           params_shp = combinations_1d (lengths S) (dilations S)
       in
     bind_e (apply_offsets S) (\<lambda>(a1', a2').
     bind_e (efold (index_group (lengths S) (dilations S) params_shp)
               [0..<length params_shp]
               (0, replicate n_shapelets 0, replicate (length params_shp + 1) 0))
       (\<lambda>(a3, idx_shp, counts).
       let n_shp_params = cumsum counts in
       efold (\<lambda>i_sample.
                efold (apply_group kern xa refs use_phase params_shp idx_shp n_shp_params
                         a1' a2' i_sample)
                  [0..<length n_shp_params - 1])
         [0..<n_samples X]
         (replicate (n_samples X) (replicate (3 * n_shapelets) 0), h)))))"

text \<open>A matrix of shape \<open>(m, k)\<close>, and a store \<open>h'\<close> that keeps what \<open>h\<close> holds below the
  address \<open>b\<close>.\<close>

definition has_shape :: "nat \<Rightarrow> nat \<Rightarrow> real list list \<Rightarrow> bool" where
  "has_shape m k X = (length X = m \<and> list_all (\<lambda>r. length r = k) X)"

definition kept :: "nat \<Rightarrow> heap \<Rightarrow> heap \<Rightarrow> bool" where
  "kept b h h' = (b \<le> next_free h' \<and> (\<forall>a<b. store h' a = store h a))"

text \<open>The seven addresses of a shapelet set lie below \<open>b\<close>.\<close>

definition refs_below :: "nat \<Rightarrow> shapelet_refs \<Rightarrow> bool" where
  "refs_below b r =
     (values_at r < b \<and> lengths_at r < b \<and> dilations_at r < b \<and> threshold_at r < b \<and>
      normalize_at r < b \<and> n_channels_at r < b \<and> channel_ids_at r < b)"

text \<open>\<open>where((lengths == L) & (dilations == d))[0]\<close> for the pair \<open>p = (L, d)\<close>: the
  shapelets of one group.\<close>

definition group_of :: "nat list \<Rightarrow> nat list \<Rightarrow> nat \<times> nat \<Rightarrow> nat list" where
  "group_of ls ds p = filter (\<lambda>k. (ls ! k, ds ! k) = p) [0..<length ls]"

text \<open>
  The inputs of the application that are valid: a series tensor \<open>X\<close> and a shapelet set
  \<open>S\<close> laid out as the generation lays it out (one length, dilation, threshold, flag and
  channel count for each shapelet, the values and the channel ids of the shapelets one
  after the other), whose channel ids are channels of \<open>X\<close> and whose (length, dilation)
  pairs have a start position in \<open>X\<close>.
\<close>

definition valid_inputs :: "series_tensor \<Rightarrow> shapelets \<Rightarrow> bool \<Rightarrow> bool" where
  "valid_inputs X S use_phase =
     (length (dilations S) = length (lengths S) \<and>
      length (threshold S) = length (lengths S) \<and>
      length (normalize_flags S) = length (lengths S) \<and>
      length (n_channels S) = length (lengths S) \<and>
      length (shp_values S) = sum_list (map2 (*) (n_channels S) (lengths S)) \<and>
      length (channel_ids S) = sum_list (n_channels S) \<and>
      list_all (\<lambda>c. c < n_features X) (channel_ids S) \<and>
      list_all (\<lambda>p. 0 < d_shape_of use_phase (n_timestamps X) (fst p) (snd p))
        (zip (lengths S) (dilations S)))"

section \<open>Concrete inputs\<close>

text \<open>Inputs on which the statements below are instantiated: externals whose generator
  gives the raw number 0 at every draw, a generator state left over from earlier use, and
  a tensor of one sample with one channel of three timestamps, all zero.\<close>

definition ex_ext :: externals where
  "ex_ext = \<lparr>mt = (\<lambda>_ _. 0), prime_up_to = (\<lambda>_. []), choice_log = (\<lambda>_ _ g. ([], g))\<rparr>"

definition ex_rng :: rng_state where
  "ex_rng = \<lparr>stream = (\<lambda>_. 7), pos = 3\<rparr>"

definition ex_X :: series_tensor where
  "ex_X = \<lparr>n_samples = 1, n_features = 1, n_timestamps = 3, cell = (\<lambda>_ _ _. 0)\<rparr>"

text \<open>The states of the generation of one shapelet and of two shapelets of length 3 from
  \<open>ex_X\<close>: when the loops start, and when they have populated every shapelet.\<close>

definition ex_st0 :: gen_state where
  "ex_st0 = \<lparr>shp_values = [0, 0, 0], lengths = [3], dilations = [1], threshold = [0],
      normalize_flags = [False], n_channels = [1], channel_ids = [0],
      id_samples = [0], start_positions = [0],
      mask_sampling = [[[[[True, True, True]]]], [[[[True, True, True]]]]],
      mask_return = [True], a1 = [0, 3], a2 = [0, 1],
      rng = \<lparr>stream = (\<lambda>_. 0), pos = 4\<rparr>\<rparr>"

definition ex_st1 :: gen_state where
  "ex_st1 = ex_st0\<lparr>rng := \<lparr>stream = (\<lambda>_. 0), pos = 7\<rparr>\<rparr>"

definition ex_two0 :: gen_state where
  "ex_two0 = \<lparr>shp_values = [0, 0, 0, 0, 0, 0], lengths = [3, 3], dilations = [1, 1],
      threshold = [0, 0], normalize_flags = [False, False], n_channels = [1, 1],
      channel_ids = [0, 0], id_samples = [0, 0], start_positions = [0, 0],
      mask_sampling = [[[[[True, True, True]]]], [[[[True, True, True]]]]],
      mask_return = [True, True], a1 = [0, 3, 6], a2 = [0, 1, 2],
      rng = \<lparr>stream = (\<lambda>_. 0), pos = 8\<rparr>\<rparr>"

definition ex_two1 :: gen_state where
  "ex_two1 = ex_two0\<lparr>rng := \<lparr>stream = (\<lambda>_. 0), pos = 14\<rparr>\<rparr>"

text \<open>A store with \<open>ex_X\<close> and a shapelet set of one normalized shapelet of length 3
  (the set \<open>ex_S\<close>, at the addresses \<open>ex_refs\<close>), a kernel, and the store after the
  shapelet has been applied: the windows of the one series have been added, normalized
  in place.\<close>

definition ex_heap :: heap where
  "ex_heap = \<lparr>store = [0 \<mapsto> Tensor ex_X, 1 \<mapsto> FloatArray [0, 0, 0], 2 \<mapsto> IntArray [3],
                       3 \<mapsto> IntArray [1], 4 \<mapsto> FloatArray [0], 5 \<mapsto> BoolArray [True],
                       6 \<mapsto> IntArray [1], 7 \<mapsto> IntArray [0]],
              next_free = 8\<rparr>"

definition ex_S :: shapelets where
  "ex_S = \<lparr>shp_values = [0, 0, 0], lengths = [3], dilations = [1], threshold = [0],
           normalize_flags = [True], n_channels = [1], channel_ids = [0]\<rparr>"

definition ex_refs :: shapelet_refs where
  "ex_refs = \<lparr>values_at = 1, lengths_at = 2, dilations_at = 3, threshold_at = 4,
              normalize_at = 5, n_channels_at = 6, channel_ids_at = 7\<rparr>"

definition ex_kernel :: kernel where
  "ex_kernel = (\<lambda>sel vals thr. (1, 2, 3))"

definition ex_heap' :: heap where
  "ex_heap' = ex_heap\<lparr>store := (store ex_heap)(8 \<mapsto> Cube [[[0, 0, 0]]]), next_free := 9\<rparr>"

text \<open>A tensor of two samples with one channel of three timestamps, sample \<open>s\<close> holding
  the value \<open>s\<close> everywhere, and the state of the generation of one shapelet of length 3
  from it when the loops start.\<close>

definition ex_X2 :: series_tensor where
  "ex_X2 = \<lparr>n_samples = 2, n_features = 1, n_timestamps = 3, cell = (\<lambda>s _ _. real s)\<rparr>"

definition ex_par0 :: gen_state where
  "ex_par0 = \<lparr>shp_values = [0, 0, 0], lengths = [3], dilations = [1], threshold = [0],
      normalize_flags = [False], n_channels = [1], channel_ids = [0],
      id_samples = [0], start_positions = [0],
      mask_sampling = [[[[[True, True, True]], [[True, True, True]]]],
                       [[[[True, True, True]], [[True, True, True]]]]],
      mask_return = [True], a1 = [0, 3], a2 = [0, 1],
      rng = \<lparr>stream = (\<lambda>_. 0), pos = 4\<rparr>\<rparr>"

text \<open>A generator state whose second raw number makes \<open>random()\<close> return one half.\<close>

definition ex_half :: rng_state where
  "ex_half = \<lparr>stream = (\<lambda>k. if k = 1 then 2 ^ 52 else 0), pos = 0\<rparr>"

section \<open>Sequencing, draws and the sampled parameters\<close>

lemma bind_e_Inr [simp]: "bind_e (Inr x) f = f x"
  by (simp add: bind_e_def)

lemma bind_e_Inl [simp]: "bind_e (Inl e) f = Inl e"
  by (simp add: bind_e_def)

lemma bind_e_eq_Inr: "bind_e m f = Inr y \<longleftrightarrow> (\<exists>x. m = Inr x \<and> f x = Inr y)"
  by (cases m) simp_all

lemma efold_inv:
  assumes "efold f xs s = Inr s'" and "P s"
    and "\<And>x t t'. x \<in> set xs \<Longrightarrow> P t \<Longrightarrow> f x t = Inr t' \<Longrightarrow> P t'"
  shows "P s'"
  using assms
proof (induction xs arbitrary: s)
  case Nil
  then show ?case by simp
next
  case (Cons x xs)
  from Cons.prems(1) obtain t where t: "f x s = Inr t" and r: "efold f xs t = Inr s'"
    by (auto simp: bind_e_eq_Inr)
  have "P t" using Cons.prems(2,3) t by auto
  then show ?case using Cons.IH [OF r] Cons.prems(3) by auto
qed

lemma efold_total:
  assumes "P s"
    and "\<And>x t. x \<in> set xs \<Longrightarrow> P t \<Longrightarrow> \<exists>t'. f x t = Inr t' \<and> P t'"
  shows "\<exists>s'. efold f xs s = Inr s' \<and> P s'"
  using assms
proof (induction xs arbitrary: s)
  case Nil
  then show ?case by simp
next
  case (Cons x xs)
  from Cons.prems obtain t where t: "f x s = Inr t" "P t" by fastforce
  have "\<exists>s'. efold f xs t = Inr s' \<and> P s'"
    using Cons.IH [OF t(2)] Cons.prems(2) by auto
  then show ?case using t by simp
qed

lemma smap_length: "smap f xs g = (ys, g') \<Longrightarrow> length ys = length xs"
  by (induction xs arbitrary: g ys) (auto split: prod.splits)

lemma smap_nth:
  "smap f xs g = (ys, g') \<Longrightarrow> i < length xs \<Longrightarrow> \<exists>h. ys ! i = fst (f (xs ! i) h)"
proof (induction xs arbitrary: g ys i g')
  case Nil
  then show ?case by simp
next
  case (Cons x xs)
  obtain y g1 where y: "f x g = (y, g1)" by (cases "f x g")
  obtain zs g2 where zs: "smap f xs g1 = (zs, g2)" by (cases "smap f xs g1")
  from Cons.prems(1) y zs have ys: "ys = y # zs" by simp
  show ?case
  proof (cases i)
    case 0
    then show ?thesis using ys y by (auto intro: exI [of _ g])
  next
    case (Suc j)
    then have "j < length xs" using Cons.prems(2) by simp
    from Cons.IH [OF zs this] show ?thesis using ys Suc by simp
  qed
qed

lemma choice_size_length: "choice_size xs n g = Inr (ys, g') \<Longrightarrow> length ys = n"
  by (auto simp: choice_size_def split: if_splits dest: smap_length)

lemma rand_below_less: "0 < n \<Longrightarrow> fst (rand_below n g) < n"
  by (simp add: rand_below_def next_raw_def)

lemma choice_size_nth:
  assumes "choice_size xs n g = Inr (ys, g')" "i < n"
  shows "ys ! i \<in> set xs"
proof -
  from assms have ne: "xs \<noteq> []" and
    sm: "smap (\<lambda>_ h. let (k, h') = rand_below (length xs) h in (xs ! k, h')) (replicate n ()) g = (ys, g')"
    by (auto simp: choice_size_def split: if_splits)
  from smap_nth [OF sm, of i] assms(2) obtain h where
    "ys ! i = fst (let (k, h') = rand_below (length xs) h in (xs ! k, h'))" by auto
  then have "ys ! i = xs ! fst (rand_below (length xs) h)"
    by (simp add: case_prod_beta)
  then show ?thesis using ne rand_below_less [of "length xs" h] by simp
qed

lemma upper_bounds_length: "upper_bounds T ls = Inr ubs \<Longrightarrow> length ubs = length ls"
  by (induction ls arbitrary: ubs) (auto simp: bind_e_eq_Inr)

lemma upper_bounds_nth:
  "upper_bounds T ls = Inr ubs \<Longrightarrow> i < length ls \<Longrightarrow> upper_bound T (ls ! i) = Inr (ubs ! i)"
proof (induction ls arbitrary: ubs i)
  case Nil
  then show ?case by simp
next
  case (Cons L ls)
  then show ?case by (cases i) (auto simp: bind_e_eq_Inr)
qed

lemma upper_bound_Inr:
  "upper_bound T L = Inr u \<Longrightarrow>
     1 \<le> (int T - 1) div (int L - 1) \<and> u = log 2 (real_of_int ((int T - 1) div (int L - 1)))"
  by (auto simp: upper_bound_def Let_def split: if_splits)

lemma quotient_bound:
  fixes T L d :: int
  assumes "1 \<le> (T - 1) div (L - 1)" "d \<le> (T - 1) div (L - 1)" "1 \<le> L"
  shows "(L - 1) * d \<le> T - 1"
proof (cases "0 < L - 1")
  case True
  have "(L - 1) * d \<le> (L - 1) * ((T - 1) div (L - 1))"
    using True assms(2) by (simp add: mult_left_mono)
  also have "\<dots> = (T - 1) - (T - 1) mod (L - 1)"
    by (simp add: minus_mod_eq_mult_div)
  also have "\<dots> \<le> T - 1"
  proof -
    have "0 \<le> (T - 1) mod (L - 1)" using True by (rule pos_mod_sign)
    then show ?thesis by linarith
  qed
  finally show ?thesis .
next
  case False
  then have "L - 1 = 0" using assms(3) by simp
  then show ?thesis using assms(1) by simp
qed

lemma random_sample_range: "0 \<le> fst (random_sample g) \<and> fst (random_sample g) < 1"
proof -
  obtain r g' where r: "next_raw g = (r, g')" by (cases "next_raw g")
  have "r mod 2 ^ 53 < (2 ^ 53 :: nat)" by simp
  then have "real (r mod 2 ^ 53) < 2 ^ 53"
    by (metis of_nat_less_iff of_nat_numeral of_nat_power)
  then show ?thesis using r by (simp add: random_sample_def)
qed

lemma uniform_range:
  assumes "0 \<le> ub"
  shows "0 \<le> fst (uniform 0 ub g) \<and> fst (uniform 0 ub g) \<le> ub"
proof -
  let ?u = "fst (random_sample g)"
  have u: "0 \<le> ?u" "?u < 1" using random_sample_range [of g] by auto
  have e: "fst (uniform 0 ub g) = ub * ?u"
    by (simp add: uniform_def case_prod_beta)
  have "ub * ?u \<le> ub * 1" using assms u by (intro mult_left_mono) auto
  then show ?thesis using e assms u by simp
qed

lemma floor_power_bound:
  fixes q :: int and e :: real
  assumes "1 \<le> q" "0 \<le> e" "e \<le> log 2 (real_of_int q)"
  shows "1 \<le> \<lfloor>2 powr e\<rfloor> \<and> \<lfloor>2 powr e\<rfloor> \<le> q"
proof -
  have "2 powr 0 \<le> (2::real) powr e" using assms(2) by (intro powr_mono) auto
  then have lo: "1 \<le> (2::real) powr e" by simp
  have "(2::real) powr e \<le> 2 powr log 2 (real_of_int q)"
    using assms(3) by (intro powr_mono) auto
  also have "\<dots> = real_of_int q" using assms(1) by (intro powr_log_cancel) auto
  finally have hi: "(2::real) powr e \<le> real_of_int q" .
  have "1 \<le> \<lfloor>(2::real) powr e\<rfloor>" using lo by (simp add: le_floor_iff)
  moreover have "\<lfloor>(2::real) powr e\<rfloor> \<le> q" using hi by (simp add: floor_le_iff)
  ultimately show ?thesis by simp
qed

lemma floor_powr_log: "1 \<le> q \<Longrightarrow> \<lfloor>2 powr log 2 (real_of_int q)\<rfloor> = q"
  by (simp add: powr_log_cancel)

lemma power_dilations_length: "power_dilations ubs g = (ds, g') \<Longrightarrow> length ds = length ubs"
  by (auto simp: power_dilations_def split: prod.splits dest: smap_length)

lemma power_dilations_nth:
  assumes "power_dilations ubs g = (ds, g')" "i < length ubs" "0 \<le> ubs ! i"
  shows "\<exists>e. 0 \<le> e \<and> e \<le> ubs ! i \<and> ds ! i = nat \<lfloor>2 powr e\<rfloor>"
proof -
  obtain ps where ps: "smap (\<lambda>ub. uniform 0 ub) ubs g = (ps, g')"
    and ds: "ds = map (\<lambda>p. nat \<lfloor>2 powr p\<rfloor>) ps"
    using assms(1) by (auto simp: power_dilations_def split: prod.splits)
  from smap_nth [OF ps assms(2)] obtain h where h: "ps ! i = fst (uniform 0 (ubs ! i) h)" by auto
  have len: "length ps = length ubs" using ps by (rule smap_length)
  have "0 \<le> ps ! i \<and> ps ! i \<le> ubs ! i" using uniform_range [OF assms(3), of h] h by simp
  moreover have "ds ! i = nat \<lfloor>2 powr (ps ! i)\<rfloor>" using ds len assms(2) by simp
  ultimately show ?thesis by blast
qed

lemma esmap_length: "esmap f xs g = Inr (ys, g') \<Longrightarrow> length ys = length xs"
  by (induction xs arbitrary: g ys g') (auto simp: bind_e_eq_Inr)

lemma esmap_nth:
  "esmap f xs g = Inr (ys, g') \<Longrightarrow> i < length xs \<Longrightarrow> \<exists>h h'. f (xs ! i) h = Inr (ys ! i, h')"
proof (induction xs arbitrary: g ys i g')
  case Nil
  then show ?case by simp
next
  case (Cons x xs)
  from Cons.prems(1) obtain y g1 zs where y: "f x g = Inr (y, g1)"
    and zs: "esmap f xs g1 = Inr (zs, g')" and ys: "ys = y # zs"
    by (auto simp: bind_e_eq_Inr)
  show ?case
  proof (cases i)
    case 0
    then show ?thesis using ys y by auto
  next
    case (Suc j)
    then have "j < length xs" using Cons.prems(2) by simp
    from Cons.IH [OF zs this] show ?thesis using ys Suc by simp
  qed
qed

lemma prime_dilations_length:
  "prime_dilations ext ubs g = Inr (ds, g') \<Longrightarrow> length ds = length ubs"
  by (auto simp: prime_dilations_def Let_def split: if_splits dest: esmap_length)

lemma prime_dilations_nth:
  assumes "prime_dilations ext ubs g = Inr (ds, g')" "i < length ubs"
  shows "int (ds ! i) \<le> \<lfloor>2 powr (ubs ! i)\<rfloor>"
proof -
  let ?primes = "prime_up_to ext \<lfloor>2 powr Max (set ubs)\<rfloor>"
  let ?f = "\<lambda>ub h.
            let shp_primes = filter (\<lambda>p. int p \<le> \<lfloor>2 powr ub\<rfloor>) ?primes;
                (ks, h') = choice_log ext (length shp_primes) 1 h
            in if ks = [] then Inl IndexError
               else if length shp_primes \<le> hd ks then Inl IndexError
               else Inr (shp_primes ! hd ks, h')"
  from assms(1) have "esmap ?f ubs g = Inr (ds, g')"
    by (auto simp: prime_dilations_def Let_def split: if_splits)
  from esmap_nth [OF this assms(2)] obtain h h' where f: "?f (ubs ! i) h = Inr (ds ! i, h')"
    by blast
  define shp where "shp = filter (\<lambda>p. int p \<le> \<lfloor>2 powr (ubs ! i)\<rfloor>) ?primes"
  obtain ks h2 where ks: "choice_log ext (length shp) (Suc 0) h = (ks, h2)"
    by (cases "choice_log ext (length shp) (Suc 0) h")
  from f have "(if ks = [] then Inl IndexError
               else if length shp \<le> hd ks then Inl IndexError
               else Inr (shp ! hd ks, h2)) = Inr (ds ! i, h')"
    by (simp add: Let_def shp_def [symmetric] ks)
  then have "hd ks < length shp" "ds ! i = shp ! hd ks"
    by (auto split: if_splits)
  then have "ds ! i \<in> set shp" by simp
  then show ?thesis by (simp add: shp_def)
qed


lemma bind_e_InrE:
  assumes "bind_e m f = Inr y"
  obtains x where "m = Inr x" "f x = Inr y"
  using assms by (auto simp: bind_e_eq_Inr)

lemma init_params_ex:
  assumes "M_SL_init_random_shapelet_params ext n sizes T p_norm mc prime g = Inr (S, g')"
  shows "\<exists>ls g1 ubs ds g2 cs g3 us.
    choice_size sizes n g = Inr (ls, g1) \<and>
    upper_bounds T ls = Inr ubs \<and>
    draw_dilations ext prime ubs g1 = Inr (ds, g2) \<and>
    choice_size [0..<mc] n g2 = Inr (cs, g3) \<and>
    smap (\<lambda>_. random_sample) (replicate n ()) g3 = (us, g') \<and>
    S = init_arrays n p_norm ls ds cs us"
  using assms unfolding M_SL_init_random_shapelet_params_def
  apply (auto simp: bind_e_eq_Inr case_prod_beta)
  apply (rule exI, rule conjI, rule prod.collapse [symmetric], rule refl)
  done

lemma init_params_cases:
  assumes "M_SL_init_random_shapelet_params ext n sizes T p_norm mc prime g = Inr (S, g')"
  obtains ls g1 ubs ds g2 cs g3 us where
    "choice_size sizes n g = Inr (ls, g1)"
    "upper_bounds T ls = Inr ubs"
    "draw_dilations ext prime ubs g1 = Inr (ds, g2)"
    "choice_size [0..<mc] n g2 = Inr (cs, g3)"
    "smap (\<lambda>_. random_sample) (replicate n ()) g3 = (us, g')"
    "S = init_arrays n p_norm ls ds cs us"
  using init_params_ex [OF assms] by blast

lemma init_params_lengths:
  assumes "M_SL_init_random_shapelet_params ext n sizes T p_norm mc prime g = Inr (S, g')"
  shows "length (lengths S) = n \<and> length (dilations S) = n \<and> length (n_channels S) = n
     \<and> length (normalize_flags S) = n \<and> length (threshold S) = n
     \<and> shp_values S = replicate (dot (lengths S) (n_channels S)) 0
     \<and> channel_ids S = replicate (sum_list (n_channels S)) 0"
proof -
  from assms obtain ls g1 ubs ds g2 cs g3 us where
    1: "choice_size sizes n g = Inr (ls, g1)" and
    2: "upper_bounds T ls = Inr ubs" and
    3: "draw_dilations ext prime ubs g1 = Inr (ds, g2)" and
    4: "choice_size [0..<mc] n g2 = Inr (cs, g3)" and
    5: "smap (\<lambda>_. random_sample) (replicate n ()) g3 = (us, g')" and
    S: "S = init_arrays n p_norm ls ds cs us"
    by (rule init_params_cases)
  have l: "length ls = n" using 1 by (rule choice_size_length)
  have u: "length ubs = n" using upper_bounds_length [OF 2] l by simp
  have d: "length ds = n" using 3 u
    by (auto simp: draw_dilations_def split: if_splits
          dest: prime_dilations_length power_dilations_length)
  have c: "length cs = n" using 4 by (rule choice_size_length)
  have r: "length us = n" using smap_length [OF 5] by simp
  show ?thesis using l d c r by (simp add: S init_arrays_def)
qed

lemma init_params_nth:
  assumes "M_SL_init_random_shapelet_params ext n sizes T p_norm mc prime g = Inr (S, g')"
    and "i < n"
  shows "lengths S ! i \<in> set sizes"
    and "1 \<le> n_channels S ! i \<and> n_channels S ! i \<le> mc"
    and "1 \<le> (int T - 1) div (int (lengths S ! i) - 1)"
    and "int (dilations S ! i) \<le> (int T - 1) div (int (lengths S ! i) - 1)"
    and "\<not> prime \<Longrightarrow> \<exists>e. 0 \<le> e \<and> e \<le> log 2 (real_of_int ((int T - 1) div (int (lengths S ! i) - 1)))
           \<and> dilations S ! i = nat \<lfloor>2 powr e\<rfloor> \<and> 1 \<le> dilations S ! i"
proof -
  from assms(1) obtain ls g1 ubs ds g2 cs g3 us where
    1: "choice_size sizes n g = Inr (ls, g1)" and
    2: "upper_bounds T ls = Inr ubs" and
    3: "draw_dilations ext prime ubs g1 = Inr (ds, g2)" and
    4: "choice_size [0..<mc] n g2 = Inr (cs, g3)" and
    5: "smap (\<lambda>_. random_sample) (replicate n ()) g3 = (us, g')" and
    S: "S = init_arrays n p_norm ls ds cs us"
    by (rule init_params_cases)
  let ?q = "(int T - 1) div (int (ls ! i) - 1)"
  have l: "length ls = n" using 1 by (rule choice_size_length)
  have u: "length ubs = n" using upper_bounds_length [OF 2] l by simp
  have c: "length cs = n" using 4 by (rule choice_size_length)
  show "lengths S ! i \<in> set sizes" using choice_size_nth [OF 1 assms(2)] by (simp add: S init_arrays_def)
  have "cs ! i \<in> set [0..<mc]" using 4 assms(2) by (rule choice_size_nth)
  then show "1 \<le> n_channels S ! i \<and> n_channels S ! i \<le> mc"
    using c assms(2) by (simp add: S init_arrays_def)
  have ub: "1 \<le> ?q \<and> ubs ! i = log 2 (real_of_int ?q)"
    using upper_bounds_nth [OF 2, of i] l assms(2) by (auto dest: upper_bound_Inr)
  then show "1 \<le> (int T - 1) div (int (lengths S ! i) - 1)" by (simp add: S init_arrays_def)
  have nonneg: "0 \<le> ubs ! i" using ub by simp
  have pw: "\<exists>e. 0 \<le> e \<and> e \<le> log 2 (real_of_int ?q) \<and> ds ! i = nat \<lfloor>2 powr e\<rfloor> \<and> 1 \<le> ds ! i
      \<and> int (ds ! i) \<le> ?q" if np: "\<not> prime"
  proof -
    from 3 np have "power_dilations ubs g1 = (ds, g2)" by (simp add: draw_dilations_def)
    from power_dilations_nth [OF this _ nonneg] u assms(2) ub
    obtain e where e: "0 \<le> e" "e \<le> log 2 (real_of_int ?q)" "ds ! i = nat \<lfloor>2 powr e\<rfloor>"
      by auto
    have fl: "1 \<le> \<lfloor>2 powr e\<rfloor>" "\<lfloor>2 powr e\<rfloor> \<le> ?q"
      using floor_power_bound [of ?q e] ub e by blast+
    have "1 \<le> ds ! i \<and> int (ds ! i) \<le> ?q" unfolding e(3) using fl by linarith
    with e show ?thesis by blast
  qed
  then show "\<not> prime \<Longrightarrow> \<exists>e. 0 \<le> e \<and> e \<le> log 2 (real_of_int ((int T - 1) div (int (lengths S ! i) - 1)))
           \<and> dilations S ! i = nat \<lfloor>2 powr e\<rfloor> \<and> 1 \<le> dilations S ! i"
    by (simp add: S init_arrays_def) blast
  show "int (dilations S ! i) \<le> (int T - 1) div (int (lengths S ! i) - 1)"
  proof (cases prime)
    case True
    with 3 have "prime_dilations ext ubs g1 = Inr (ds, g2)" by (simp add: draw_dilations_def)
    from prime_dilations_nth [OF this, of i] u assms(2)
    have "int (ds ! i) \<le> \<lfloor>2 powr (ubs ! i)\<rfloor>" by simp
    also have "\<dots> = ?q" using ub by (simp add: floor_powr_log)
    finally show ?thesis by (simp add: S init_arrays_def)
  next
    case False
    with pw show ?thesis by (auto simp: S init_arrays_def)
  qed
qed

lemma upper_bounds_total:
  "list_all (\<lambda>L. 1 \<le> (int T - 1) div (int L - 1)) ls \<Longrightarrow> \<exists>ubs. upper_bounds T ls = Inr ubs"
  by (induction ls) (auto simp: upper_bound_def Let_def)

lemma valid_length_quotient:
  assumes "2 \<le> L" "L \<le> T"
  shows "1 \<le> (int T - 1) div (int L - 1)"
proof -
  have "0 < (int T - 1) div (int L - 1)"
    using assms by (subst pos_imp_zdiv_pos_iff) auto
  then show ?thesis by simp
qed

lemma choice_size_total:
  "n = 0 \<or> xs \<noteq> [] \<Longrightarrow> \<exists>ys g'. choice_size xs n g = Inr (ys, g')"
  by (auto simp: choice_size_def intro: prod.collapse [symmetric])

lemma init_params_total:
  assumes "n = 0 \<or> sizes \<noteq> []" "list_all (\<lambda>L. 2 \<le> L \<and> L \<le> T) sizes" "n = 0 \<or> 0 < mc"
  shows "\<exists>S g'. M_SL_init_random_shapelet_params ext n sizes T p_norm mc False g = Inr (S, g')"
proof -
  obtain ls g1 where 1: "choice_size sizes n g = Inr (ls, g1)"
    using choice_size_total [OF assms(1)] by blast
  have "list_all (\<lambda>L. 1 \<le> (int T - 1) div (int L - 1)) ls"
    unfolding list_all_length
  proof (intro allI impI)
    fix i assume "i < length ls"
    then have "i < n" using choice_size_length [OF 1] by simp
    from choice_size_nth [OF 1 this] assms(2) have "2 \<le> ls ! i \<and> ls ! i \<le> T"
      by (auto simp: list_all_iff)
    then show "1 \<le> (int T - 1) div (int (ls ! i) - 1)" by (simp add: valid_length_quotient)
  qed
  then obtain ubs where 2: "upper_bounds T ls = Inr ubs"
    using upper_bounds_total by blast
  obtain ds g2 where 3: "draw_dilations ext False ubs g1 = Inr (ds, g2)"
    by (cases "power_dilations ubs g1") (simp add: draw_dilations_def)
  have "n = 0 \<or> [0..<mc] \<noteq> []" using assms(3) by auto
  then obtain cs g3 where 4: "choice_size [0..<mc] n g2 = Inr (cs, g3)"
    using choice_size_total by blast
  show ?thesis
    unfolding M_SL_init_random_shapelet_params_def
    by (simp add: 1 2 3 4 case_prod_beta)
qed

text \<open>
  The call seeds the generator of the calling thread before its first draw: without the
  parallel target, what it returns does not depend on the state the generator was in
  before the call.
\<close>

lemma sequential_generation_ignores_earlier_state:
  "M_SL_generate_shapelet ext g X y n_shapelets shapelet_sizes r_seed p_norm p_min p_max
     alpha use_phase max_channels prime_scheme =
   M_SL_generate_shapelet ext g' X y n_shapelets shapelet_sizes r_seed p_norm p_min p_max
     alpha use_phase max_channels prime_scheme"
  by (simp add: M_SL_generate_shapelet_def generate_state_def init_state_def seed_def)

lemma smap_draws:
  assumes step: "\<And>x h. snd (f x h) = h\<lparr>pos := Suc (pos h)\<rparr>"
    and run: "smap f xs g = (ys, g')"
  shows "g' = g\<lparr>pos := pos g + length xs\<rparr>
    \<and> (\<forall>i<length xs. ys ! i = fst (f (xs ! i) (g\<lparr>pos := pos g + i\<rparr>)))"
  using run
proof (induction xs arbitrary: g ys g')
  case Nil
  then show ?case by simp
next
  case (Cons x xs)
  obtain y g1 where y: "f x g = (y, g1)" by (cases "f x g")
  obtain zs g2 where zs: "smap f xs g1 = (zs, g2)" by (cases "smap f xs g1")
  from Cons.prems y zs have ys: "ys = y # zs" and g': "g' = g2" by simp_all
  have g1: "g1 = g\<lparr>pos := Suc (pos g)\<rparr>" using step [of x g] y by simp
  note ih = Cons.IH [OF zs]
  have a: "g' = g\<lparr>pos := pos g + length (x # xs)\<rparr>" using ih g' g1 by simp
  have b: "ys ! i = fst (f ((x # xs) ! i) (g\<lparr>pos := pos g + i\<rparr>))" if "i < length (x # xs)" for i
  proof (cases i)
    case 0
    then show ?thesis using ys y by simp
  next
    case (Suc j)
    then have "j < length xs" using that by simp
    then have "zs ! j = fst (f (xs ! j) (g1\<lparr>pos := pos g1 + j\<rparr>))" using ih by simp
    then show ?thesis using ys Suc g1 by simp
  qed
  show ?case using a b by blast
qed

lemma uniform_snd: "snd (uniform lo hi h) = h\<lparr>pos := Suc (pos h)\<rparr>"
  by (simp add: uniform_def random_sample_def next_raw_def case_prod_beta)

lemma rand_choice_snd:
  "snd (let (k, h') = rand_below m h in (xs ! k, h')) = h\<lparr>pos := Suc (pos h)\<rparr>"
  by (simp add: rand_below_def next_raw_def case_prod_beta)

lemma choice_size_draws:
  assumes "choice_size xs n g = Inr (ys, g')" "0 < n"
  shows "g' = g\<lparr>pos := pos g + n\<rparr>
    \<and> (\<forall>i<n. ys ! i = xs ! (stream g (pos g + i) mod length xs))"
proof -
  let ?f = "\<lambda>(_::unit) h. let (k, h') = rand_below (length xs) h in (xs ! k, h')"
  from assms have sm: "smap ?f (replicate n ()) g = (ys, g')"
    by (auto simp: choice_size_def split: if_splits)
  have "\<And>x h. snd (?f x h) = h\<lparr>pos := Suc (pos h)\<rparr>" by (rule rand_choice_snd)
  from smap_draws [of ?f, OF this sm]
  show ?thesis by (simp add: rand_below_def next_raw_def case_prod_beta)
qed

lemma power_dilations_draws:
  assumes "power_dilations ubs g = (ds, g')" "i < length ubs"
  shows "ds ! i = nat \<lfloor>2 powr fst (uniform 0 (ubs ! i) (g\<lparr>pos := pos g + i\<rparr>))\<rfloor>"
proof -
  obtain ps where ps: "smap (\<lambda>ub. uniform 0 ub) ubs g = (ps, g')"
    and ds: "ds = map (\<lambda>p. nat \<lfloor>2 powr p\<rfloor>) ps"
    using assms(1) by (auto simp: power_dilations_def split: prod.splits)
  have len: "length ps = length ubs" using ps by (rule smap_length)
  have "\<And>x h. snd (uniform 0 x h) = h\<lparr>pos := Suc (pos h)\<rparr>" by (rule uniform_snd)
  from smap_draws [of "\<lambda>ub. uniform 0 ub", OF this ps] assms(2)
  have "ps ! i = fst (uniform 0 (ubs ! i) (g\<lparr>pos := pos g + i\<rparr>))" by simp
  then show ?thesis using ds len assms(2) by simp
qed

lemma init_params_draws:
  assumes "M_SL_init_random_shapelet_params ext n sizes T p_norm mc False g = Inr (S, g')"
    and "i < n"
  shows "lengths S ! i = sizes ! (stream g (pos g + i) mod length sizes)"
    and "dilations S ! i = nat \<lfloor>2 powr fst (uniform 0
           (log 2 (real_of_int ((int T - 1) div (int (lengths S ! i) - 1))))
           (g\<lparr>pos := pos g + n + i\<rparr>))\<rfloor>"
proof -
  from assms(1) obtain ls g1 ubs ds g2 cs g3 us where
    1: "choice_size sizes n g = Inr (ls, g1)" and
    2: "upper_bounds T ls = Inr ubs" and
    3: "draw_dilations ext False ubs g1 = Inr (ds, g2)" and
    S: "S = init_arrays n p_norm ls ds cs us"
    by (rule init_params_cases)
  have n: "0 < n" using assms(2) by simp
  note c = choice_size_draws [OF 1 n]
  have l: "length ls = n" using 1 by (rule choice_size_length)
  have u: "length ubs = n" using upper_bounds_length [OF 2] l by simp
  show "lengths S ! i = sizes ! (stream g (pos g + i) mod length sizes)"
    using c assms(2) by (simp add: S init_arrays_def)
  have ub: "ubs ! i = log 2 (real_of_int ((int T - 1) div (int (ls ! i) - 1)))"
    using upper_bounds_nth [OF 2, of i] l assms(2) by (auto dest: upper_bound_Inr)
  from 3 have "power_dilations ubs g1 = (ds, g2)" by (simp add: draw_dilations_def)
  from power_dilations_draws [OF this, of i] u assms(2)
  have "ds ! i = nat \<lfloor>2 powr fst (uniform 0 (ubs ! i) (g1\<lparr>pos := pos g1 + i\<rparr>))\<rfloor>" by simp
  then show "dilations S ! i = nat \<lfloor>2 powr fst (uniform 0
           (log 2 (real_of_int ((int T - 1) div (int (lengths S ! i) - 1))))
           (g\<lparr>pos := pos g + n + i\<rparr>))\<rfloor>"
    using c ub by (simp add: S init_arrays_def)
qed

lemma log_2_4: "log 2 4 = (2::real)"
proof -
  have "log 2 (2 ^ 2) = real 2" by (rule log_pow_cancel) simp_all
  then show ?thesis by simp
qed

lemma ex_half_draw: "fst (uniform 0 2 (ex_half\<lparr>pos := Suc (pos ex_half)\<rparr>)) = 1"
  by (simp add: uniform_def random_sample_def next_raw_def ex_half_def)

lemma singleton_list: "length xs = 1 \<Longrightarrow> xs ! 0 = x \<Longrightarrow> xs = [x]"
  by (cases xs) auto

text \<open>
  C7. In the unrestricted scheme, with every admissible length between 2 and the
  timestamp count \<open>T\<close>, the parameters are drawn, and for every shapelet \<open>i\<close>: its
  length is the element of the length set that the \<open>i\<close>-th raw number of the generator
  selects; its dilation is \<open>floor(2^e)\<close>, where \<open>e\<close> is the draw
  \<open>uniform(0, log2(floor((T-1)/(length[i]-1))))\<close> made with the raw number that follows the
  \<open>n_shapelets\<close> draws of the lengths and the \<open>i\<close> earlier draws of exponents; \<open>e\<close> lies
  between 0 and that upper bound; so \<open>1 \<le> dilation[i]\<close> and
  \<open>(length[i]-1) * dilation[i] \<le> T-1\<close>.
\<close>

theorem unrestricted_dilation_in_bounds:
  assumes "n = 0 \<or> sizes \<noteq> []" "list_all (\<lambda>L. 2 \<le> L \<and> L \<le> T) sizes" "n = 0 \<or> 0 < mc"
  shows "\<exists>S g'. M_SL_init_random_shapelet_params ext n sizes T p_norm mc False g = Inr (S, g')
    \<and> length (dilations S) = n \<and> length (lengths S) = n
    \<and> (\<forall>i<n. (\<exists>e. e = fst (uniform 0
                      (log 2 (real_of_int ((int T - 1) div (int (lengths S ! i) - 1))))
                      (g\<lparr>pos := pos g + n + i\<rparr>))
            \<and> 0 \<le> e
            \<and> e \<le> log 2 (real_of_int ((int T - 1) div (int (lengths S ! i) - 1)))
            \<and> dilations S ! i = nat \<lfloor>2 powr e\<rfloor>)
          \<and> lengths S ! i = sizes ! (stream g (pos g + i) mod length sizes)
          \<and> 1 \<le> dilations S ! i
          \<and> (lengths S ! i - 1) * dilations S ! i \<le> T - 1)"
proof -
  obtain S g' where r: "M_SL_init_random_shapelet_params ext n sizes T p_norm mc False g = Inr (S, g')"
    using init_params_total [OF assms] by blast
  have "(\<exists>e. e = fst (uniform 0
                      (log 2 (real_of_int ((int T - 1) div (int (lengths S ! i) - 1))))
                      (g\<lparr>pos := pos g + n + i\<rparr>))
            \<and> 0 \<le> e
            \<and> e \<le> log 2 (real_of_int ((int T - 1) div (int (lengths S ! i) - 1)))
            \<and> dilations S ! i = nat \<lfloor>2 powr e\<rfloor>)
          \<and> lengths S ! i = sizes ! (stream g (pos g + i) mod length sizes)
          \<and> 1 \<le> dilations S ! i
          \<and> (lengths S ! i - 1) * dilations S ! i \<le> T - 1" if i: "i < n" for i
  proof -
    let ?q = "(int T - 1) div (int (lengths S ! i) - 1)"
    let ?e = "fst (uniform 0 (log 2 (real_of_int ?q)) (g\<lparr>pos := pos g + n + i\<rparr>))"
    have L: "2 \<le> lengths S ! i \<and> lengths S ! i \<le> T"
      using init_params_nth(1) [OF r i] assms(2) by (auto simp: list_all_iff)
    have q: "1 \<le> ?q" using init_params_nth(3) [OF r i] .
    then have "0 \<le> log 2 (real_of_int ?q)" by simp
    then have e: "0 \<le> ?e \<and> ?e \<le> log 2 (real_of_int ?q)" by (rule uniform_range)
    have d: "dilations S ! i = nat \<lfloor>2 powr ?e\<rfloor>" using init_params_draws(2) [OF r i] .
    have l: "lengths S ! i = sizes ! (stream g (pos g + i) mod length sizes)"
      using init_params_draws(1) [OF r i] .
    have fl: "1 \<le> \<lfloor>2 powr ?e\<rfloor>" using floor_power_bound [of ?q ?e] q e by blast
    then have one: "1 \<le> dilations S ! i" unfolding d by linarith
    have "(int (lengths S ! i) - 1) * int (dilations S ! i) \<le> int T - 1"
      using init_params_nth(3,4) [OF r i] L by (intro quotient_bound) auto
    moreover have eq: "int (lengths S ! i - 1) = int (lengths S ! i) - 1"
      using L by linarith
    ultimately have "int ((lengths S ! i - 1) * dilations S ! i) \<le> int T - 1"
      by (simp only: of_nat_mult eq)
    then have "(lengths S ! i - 1) * dilations S ! i \<le> T - 1" by linarith
    with e d l one show ?thesis by blast
  qed
  then show ?thesis using r init_params_lengths [OF r] by blast
qed

theorem unrestricted_dilation_in_bounds_witness:
  "((1::nat) = 0 \<or> [2::nat] \<noteq> []) \<and> list_all (\<lambda>L. 2 \<le> L \<and> L \<le> 5) [2::nat]
   \<and> ((1::nat) = 0 \<or> (0::nat) < 1)
   \<and> (\<exists>S g'. M_SL_init_random_shapelet_params ex_ext 1 [2] 5 0 1 False ex_half = Inr (S, g')
        \<and> lengths S = [2] \<and> dilations S = [2]
        \<and> 1 \<le> dilations S ! 0 \<and> (lengths S ! 0 - 1) * dilations S ! 0 \<le> 5 - 1)"
proof -
  have a: "(1::nat) = 0 \<or> [2::nat] \<noteq> []" by simp
  have b: "list_all (\<lambda>L. 2 \<le> L \<and> L \<le> 5) [2::nat]" by simp
  have c: "(1::nat) = 0 \<or> (0::nat) < 1" by simp
  from unrestricted_dilation_in_bounds [OF a b c, of ex_ext 0 ex_half]
  obtain S g' where r: "M_SL_init_random_shapelet_params ex_ext 1 [2] 5 0 1 False ex_half = Inr (S, g')"
    and len: "length (dilations S) = 1" "length (lengths S) = 1"
    and all: "\<forall>i<1. (\<exists>e. e = fst (uniform 0
                      (log 2 (real_of_int ((int 5 - 1) div (int (lengths S ! i) - 1))))
                      (ex_half\<lparr>pos := pos ex_half + 1 + i\<rparr>))
            \<and> 0 \<le> e
            \<and> e \<le> log 2 (real_of_int ((int 5 - 1) div (int (lengths S ! i) - 1)))
            \<and> dilations S ! i = nat \<lfloor>2 powr e\<rfloor>)
          \<and> lengths S ! i = [2] ! (stream ex_half (pos ex_half + i) mod length [2::nat])
          \<and> 1 \<le> dilations S ! i
          \<and> (lengths S ! i - 1) * dilations S ! i \<le> 5 - 1"
    by blast
  from all have l0: "lengths S ! 0 = 2" by simp
  from all have "dilations S ! 0 = nat \<lfloor>2 powr fst (uniform 0
                      (log 2 (real_of_int ((int 5 - 1) div (int (lengths S ! 0) - 1))))
                      (ex_half\<lparr>pos := pos ex_half + 1 + 0\<rparr>))\<rfloor>" by blast
  then have d0: "dilations S ! 0 = 2"
    unfolding l0 by (simp add: log_2_4 ex_half_draw)
  have "lengths S = [2]" using len(2) l0 by (rule singleton_list)
  moreover have "dilations S = [2]" using len(1) d0 by (rule singleton_list)
  moreover have "1 \<le> dilations S ! 0 \<and> (lengths S ! 0 - 1) * dilations S ! 0 \<le> 5 - 1"
    by (simp add: l0 d0)
  ultimately show ?thesis using r a b c by blast
qed

section \<open>Offsets, slices and the candidates\<close>

lemma length_cumsum_from [simp]: "length (cumsum_from acc xs) = length xs"
  by (induction xs arbitrary: acc) auto

lemma cumsum_from_nth:
  "i < length xs \<Longrightarrow> cumsum_from acc xs ! i = acc + sum_list (take (Suc i) xs)"
proof (induction xs arbitrary: acc i)
  case Nil
  then show ?case by simp
next
  case (Cons x xs)
  then show ?case by (cases i) (auto simp: add.assoc)
qed

lemma length_offsets [simp]: "length (offsets xs) = Suc (length xs)"
  by (simp add: offsets_def cumsum_def)

lemma offsets_nth: "i \<le> length xs \<Longrightarrow> offsets xs ! i = sum_list (take i xs)"
  by (cases i) (auto simp: offsets_def cumsum_def cumsum_from_nth)

lemma offsets_Suc: "i < length xs \<Longrightarrow> offsets xs ! Suc i = offsets xs ! i + xs ! i"
  by (simp add: offsets_nth take_Suc_conv_app_nth)

lemma offsets_mono:
  assumes "i \<le> j" "j \<le> length xs"
  shows "offsets xs ! i \<le> offsets xs ! j"
proof -
  have "take j xs = take i xs @ take (j - i) (drop i xs)"
    using assms by (metis le_add_diff_inverse take_add)
  then have "sum_list (take j xs) = sum_list (take i xs) + sum_list (take (j - i) (drop i xs))"
    by simp
  then show ?thesis using assms by (simp add: offsets_nth)
qed

lemma offsets_last: "offsets xs ! length xs = sum_list xs"
  by (simp add: offsets_nth)

lemma length_slice: "b \<le> length xs \<Longrightarrow> length (slice xs a b) = b - a"
  by (auto simp: slice_def)

lemma set_slice_fit:
  assumes "a \<le> b" "b \<le> length xs" "length v = b - a"
  shows "set_slice xs a b v = Inr (take a xs @ v @ drop b xs)"
  using assms by (simp add: set_slice_def Let_def min_def max_def)

lemma set_slice_length: "set_slice xs a b v = Inr r \<Longrightarrow> length r = length xs"
  by (auto simp: set_slice_def Let_def split: if_splits)

lemma slice_replaced_same:
  assumes "a \<le> b" "b \<le> length xs" "length v = b - a"
  shows "slice (take a xs @ v @ drop b xs) a b = v"
  using assms by (simp add: slice_def)

lemma slice_replaced_before:
  assumes "a \<le> b" "b \<le> length xs" "length v = b - a" "d \<le> a"
  shows "slice (take a xs @ v @ drop b xs) c d = slice xs c d"
proof -
  have "take (d - c) (drop c (take a xs @ v @ drop b xs)) = take (d - c) (drop c (take a xs))"
    using assms by (cases "c \<le> a") auto
  also have "\<dots> = take (d - c) (drop c xs)"
    using assms by (simp add: drop_take min_def)
  finally show ?thesis by (simp add: slice_def)
qed

lemma slice_replaced_after:
  assumes "a \<le> b" "b \<le> length xs" "length v = b - a" "b \<le> c"
  shows "slice (take a xs @ v @ drop b xs) c d = slice xs c d"
proof -
  have "drop c (take a xs @ v @ drop b xs) = drop (c - b) (drop b xs)"
    using assms by simp
  also have "\<dots> = drop c xs" using assms by simp
  finally show ?thesis by (simp add: slice_def)
qed

lemma map2_mult_commute: "map2 (*) xs ys = map2 (*) ys (xs :: nat list)"
proof (induction xs arbitrary: ys)
  case Nil
  then show ?case by simp
next
  case (Cons x xs)
  then show ?case by (cases ys) (auto simp: mult.commute)
qed

lemma slice_stop_le: "slice_stop n k \<le> n"
  by (auto simp: slice_stop_def)

lemma slice_stop_nonneg: "0 \<le> k \<Longrightarrow> int (slice_stop n k) \<le> k"
  by (auto simp: slice_stop_def)

lemma i_mask_mem:
  "(s, p) \<in> set (i_mask m ns nf T k thr) \<Longrightarrow> s < ns \<and> p < slice_stop T k"
  by (auto simp: i_mask_def)

lemma i_mask_true:
  assumes "\<And>s c p. s < ns \<Longrightarrow> c < nf \<Longrightarrow> p < T \<Longrightarrow> m ! s ! c ! p"
  shows "i_mask m ns nf T k thr =
     (if thr \<le> real nf then concat (map (\<lambda>s. map (\<lambda>p. (s, p)) [0..<slice_stop T k]) [0..<ns])
      else [])"
proof -
  have cnt: "length (filter (\<lambda>c. m ! s ! c ! p) [0..<nf]) = nf"
    if "s < ns" "p < slice_stop T k" for s p
  proof -
    have "p < T" using that(2) slice_stop_le [of T k] by simp
    then have "filter (\<lambda>c. m ! s ! c ! p) [0..<nf] = [0..<nf]"
      using that(1) assms by (intro filter_True) auto
    then show ?thesis by simp
  qed
  have row: "filter (\<lambda>p. thr \<le> real (length (filter (\<lambda>c. m ! s ! c ! p) [0..<nf])))
              [0..<slice_stop T k]
            = (if thr \<le> real nf then [0..<slice_stop T k] else [])" if "s < ns" for s
  proof (cases "thr \<le> real nf")
    case True
    then show ?thesis using cnt [OF that] by (auto intro!: filter_True)
  next
    case False
    then show ?thesis using cnt [OF that] by (auto simp: filter_empty_conv)
  qed
  have "map (\<lambda>s. map (\<lambda>p. (s, p))
          (filter (\<lambda>p. thr \<le> real (length (filter (\<lambda>c. m ! s ! c ! p) [0..<nf])))
             [0..<slice_stop T k])) [0..<ns]
      = map (\<lambda>s. map (\<lambda>p. (s, p)) (if thr \<le> real nf then [0..<slice_stop T k] else []))
          [0..<ns]"
    by (rule map_cong [OF refl]) (simp add: row)
  then have "i_mask m ns nf T k thr =
      concat (map (\<lambda>s. map (\<lambda>p. (s, p)) (if thr \<le> real nf then [0..<slice_stop T k] else []))
        [0..<ns])"
    unfolding i_mask_def by (rule arg_cong)
  then show ?thesis by (auto simp: concat_eq_Nil_conv)
qed

lemma i_mask_all_true:
  "i_mask (replicate ns (replicate nf (replicate T True))) ns nf T k thr =
     (if thr \<le> real nf then concat (map (\<lambda>s. map (\<lambda>p. (s, p)) [0..<slice_stop T k]) [0..<ns])
      else [])"
  by (rule i_mask_true) simp

lemma i_mask_all_true_nonempty:
  "i_mask (replicate ns (replicate nf (replicate T True))) ns nf T k thr \<noteq> [] \<longleftrightarrow>
     0 < ns \<and> 0 < slice_stop T k \<and> thr \<le> real nf"
  by (auto simp: i_mask_all_true concat_eq_Nil_conv)

lemma choice_mem: "choice xs g = Inr (x, g') \<Longrightarrow> x \<in> set xs"
proof -
  assume a: "choice xs g = Inr (x, g')"
  then have ne: "xs \<noteq> []" by (auto simp: choice_def split: if_splits)
  with a have "x = xs ! fst (rand_below (length xs) g)"
    by (auto simp: choice_def case_prod_beta)
  then show ?thesis using ne rand_below_less [of "length xs" g] by simp
qed

lemma choice_total: "xs \<noteq> [] \<Longrightarrow> \<exists>x g'. choice xs g = Inr (x, g')"
  by (simp add: choice_def case_prod_beta)

lemma remove_nth_props:
  assumes "distinct pool" "j < length pool"
  shows "distinct (take j pool @ drop (Suc j) pool)"
    and "set (take j pool @ drop (Suc j) pool) = set pool - {pool ! j}"
    and "length (take j pool @ drop (Suc j) pool) = length pool - 1"
proof -
  have e: "pool = take j pool @ pool ! j # drop (Suc j) pool"
    using assms(2) by (rule id_take_nth_drop)
  have d: "distinct (take j pool @ pool ! j # drop (Suc j) pool)"
    using assms(1) e by simp
  then show "distinct (take j pool @ drop (Suc j) pool)" by simp
  have "set pool = set (take j pool @ pool ! j # drop (Suc j) pool)" using e by simp
  then show "set (take j pool @ drop (Suc j) pool) = set pool - {pool ! j}"
    using d by auto
  show "length (take j pool @ drop (Suc j) pool) = length pool - 1"
    using assms(2) by simp
qed

lemma draw_distinct_length: "length (fst (draw_distinct k pool g)) = k"
  by (induction k arbitrary: pool g) (auto simp: case_prod_beta Let_def)

lemma draw_distinct_props:
  "distinct pool \<Longrightarrow> k \<le> length pool \<Longrightarrow>
     distinct (fst (draw_distinct k pool g)) \<and> set (fst (draw_distinct k pool g)) \<subseteq> set pool"
proof (induction k arbitrary: pool g)
  case 0
  then show ?case by simp
next
  case (Suc k)
  let ?j = "fst (rand_below (length pool) g)"
  let ?g1 = "snd (rand_below (length pool) g)"
  let ?pool = "take ?j pool @ drop (Suc ?j) pool"
  have "0 < length pool" using Suc.prems(2) by linarith
  then have j: "?j < length pool" by (rule rand_below_less)
  note rp = remove_nth_props [OF Suc.prems(1) j]
  have "k \<le> length ?pool" using Suc.prems(2) rp(3) by simp
  from Suc.IH [OF rp(1) this, of ?g1]
  have ih: "distinct (fst (draw_distinct k ?pool ?g1))"
    "set (fst (draw_distinct k ?pool ?g1)) \<subseteq> set pool - {pool ! ?j}"
    using rp(2) by auto
  have e: "fst (draw_distinct (Suc k) pool g) = pool ! ?j # fst (draw_distinct k ?pool ?g1)"
    by (simp add: case_prod_beta Let_def)
  show ?case unfolding e using ih j by auto
qed

lemma choice_no_replace_post:
  assumes "choice_no_replace [0..<nf] k g = Inr (chs, g')"
  shows "length chs = k \<and> distinct chs \<and> list_all (\<lambda>c. c < nf) chs"
proof -
  from assms have k: "k \<le> nf" and e: "chs = fst (draw_distinct k [0..<nf] g)"
    by (auto simp: choice_no_replace_def split: if_splits)
  have "distinct chs \<and> set chs \<subseteq> set [0..<nf]"
    unfolding e using k by (intro draw_distinct_props) auto
  then show ?thesis using draw_distinct_length [of k "[0..<nf]" g] e
    by (auto simp: list_all_iff)
qed

lemma choice_no_replace_total:
  "k \<le> length xs \<Longrightarrow> \<exists>chs g'. choice_no_replace xs k g = Inr (chs, g')"
  by (cases "draw_distinct k xs g") (simp add: choice_no_replace_def)

lemma length_z_normalize [simp]: "length (z_normalize v) = length v"
  by (simp add: z_normalize_def)

lemma get_subsequence_length: "get_subsequence x p L d nrm up = Inr v \<Longrightarrow> length v = L"
  by (auto simp: get_subsequence_def Let_def bind_e_eq_Inr z_normalize_def split: if_splits)

lemma extract_channel_length:
  "extract_channel X s p L d nrm up c = Inr v \<Longrightarrow> length v = L"
  by (auto simp: extract_channel_def bind_e_eq_Inr dest: get_subsequence_length)

lemma extract_all_length:
  "extract_all X s p L d nrm up cs = Inr w \<Longrightarrow> length w = length cs * L"
  by (induction cs arbitrary: w) (auto simp: bind_e_eq_Inr dest: extract_channel_length)

lemma fill_values_eq:
  "a3 + length cs * L \<le> length vals \<Longrightarrow>
     fill_values X s p L d nrm up cs a3 vals =
       bind_e (extract_all X s p L d nrm up cs)
         (\<lambda>w. Inr (take a3 vals @ w @ drop (a3 + length cs * L) vals))"
proof (induction cs arbitrary: a3 vals)
  case Nil
  then show ?case by simp
next
  case (Cons c cs)
  show ?case
  proof (cases "extract_channel X s p L d nrm up c")
    case (Inl e)
    then show ?thesis
      by (cases "channel_row X s c") (auto simp: extract_channel_def)
  next
    case (Inr v)
    then obtain x where x: "channel_row X s c = Inr x" "get_subsequence x p L d nrm up = Inr v"
      by (auto simp: extract_channel_def bind_e_eq_Inr)
    have lv: "length v = L" using Inr by (rule extract_channel_length)
    have fit: "a3 + L \<le> length vals" using Cons.prems by simp
    define vals' where "vals' = take a3 vals @ v @ drop (a3 + L) vals"
    have ss: "set_slice vals a3 (a3 + L) v = Inr vals'"
      unfolding vals'_def using fit lv by (intro set_slice_fit) auto
    have len: "length vals' = length vals" using fit lv by (simp add: vals'_def)
    have "(a3 + L) + length cs * L \<le> length vals'" using Cons.prems len by simp
    note ih = Cons.IH [OF this]
    have t: "take (a3 + L) vals' = take a3 vals @ v" using fit lv by (simp add: vals'_def)
    have dr: "drop (a3 + L + length cs * L) vals' = drop (a3 + length (c # cs) * L) vals"
      using fit lv by (simp add: vals'_def ac_simps)
    have "fill_values X s p L d nrm up (c # cs) a3 vals
        = fill_values X s p L d nrm up cs (a3 + L) vals'"
      by (simp add: x ss)
    also have "\<dots> = bind_e (extract_all X s p L d nrm up cs)
         (\<lambda>w. Inr ((take a3 vals @ v) @ w @ drop (a3 + length (c # cs) * L) vals))"
      unfolding ih t dr ..
    also have "\<dots> = bind_e (extract_all X s p L d nrm up (c # cs))
         (\<lambda>w. Inr (take a3 vals @ w @ drop (a3 + length (c # cs) * L) vals))"
      by (cases "extract_all X s p L d nrm up cs") (simp_all add: Inr)
    finally show ?thesis .
  qed
qed

section \<open>One pass of the loop body\<close>

lemma wf_offsets:
  assumes "arrays_wf n X st" "i < n"
  shows "a1 st ! (i + 1) = a1 st ! i + n_channels st ! i * lengths st ! i"
    and "a1 st ! (i + 1) \<le> length (shp_values st)"
    and "a2 st ! (i + 1) = a2 st ! i + n_channels st ! i"
    and "a2 st ! (i + 1) \<le> length (channel_ids st)"
proof -
  let ?m = "map2 (*) (n_channels st) (lengths st)"
  have ln: "length (n_channels st) = n" and ll: "length (lengths st) = n"
    using assms(1) by (auto simp: arrays_wf_def)
  have lm: "length ?m = n" by (simp add: ln ll)
  have a1: "a1 st = offsets ?m" and a2: "a2 st = offsets (n_channels st)"
    using assms(1) by (auto simp: arrays_wf_def)
  have nth: "?m ! i = n_channels st ! i * lengths st ! i"
    using assms(2) by (simp add: ln ll)
  have "i < length ?m" using lm assms(2) by simp
  from offsets_Suc [OF this]
  show "a1 st ! (i + 1) = a1 st ! i + n_channels st ! i * lengths st ! i"
    by (simp only: a1 nth Suc_eq_plus1)
  have lv: "length (shp_values st) = sum_list ?m"
    and lc: "length (channel_ids st) = sum_list (n_channels st)"
    using assms(1) by (auto simp: arrays_wf_def)
  have "offsets ?m ! Suc i \<le> offsets ?m ! length ?m"
    using lm assms(2) by (intro offsets_mono) auto
  also have "\<dots> = sum_list ?m" by (rule offsets_last)
  finally show "a1 st ! (i + 1) \<le> length (shp_values st)"
    by (simp only: a1 lv Suc_eq_plus1)
  have "i < length (n_channels st)" using ln assms(2) by simp
  from offsets_Suc [OF this]
  show "a2 st ! (i + 1) = a2 st ! i + n_channels st ! i"
    by (simp only: a2 Suc_eq_plus1)
  have "offsets (n_channels st) ! Suc i \<le> offsets (n_channels st) ! length (n_channels st)"
    using ln assms(2) by (intro offsets_mono) auto
  also have "\<dots> = sum_list (n_channels st)" by (rule offsets_last)
  finally show "a2 st ! (i + 1) \<le> length (channel_ids st)"
    by (simp only: a2 lc Suc_eq_plus1)
qed

lemma wf_offsets_mono:
  assumes "arrays_wf n X st" "i \<le> j" "j \<le> n"
  shows "a1 st ! i \<le> a1 st ! j" and "a2 st ! i \<le> a2 st ! j"
  using assms by (auto simp: arrays_wf_def intro!: offsets_mono)

lemma sample_shapelet_ex:
  assumes "sample_shapelet X up i im st = Inr st'"
  shows "\<exists>s g1 p g2 chs g3 vals values' cids'.
    choice (map fst im) (rng st) = Inr (s, g1) \<and>
    choice (map snd (filter (\<lambda>sp. fst sp = s) im)) g1 = Inr (p, g2) \<and>
    choice_no_replace [0..<n_features X] (n_channels st ! i) g2 = Inr (chs, g3) \<and>
    fill_values X s p (lengths st ! i) (dilations st ! i) (normalize_flags st ! i) up chs 0
      (replicate (n_channels st ! i * lengths st ! i) 0) = Inr vals \<and>
    set_slice (shp_values st) (a1 st ! i) (a1 st ! (i + 1)) vals = Inr values' \<and>
    set_slice (channel_ids st) (a2 st ! i) (a2 st ! (i + 1)) chs = Inr cids' \<and>
    st' = st\<lparr>id_samples := (id_samples st)[i := s],
              start_positions := (start_positions st)[i := p],
              shp_values := values', channel_ids := cids', rng := g3\<rparr>"
  using assms unfolding sample_shapelet_def
  by (auto simp: bind_e_eq_Inr)


lemma sample_shapelet_post:
  assumes wf: "arrays_wf n X st" and i: "i < n"
    and im: "\<And>s p. (s, p) \<in> set im \<Longrightarrow> s < n_samples X \<and>
        p < slice_stop (n_timestamps X)
              (d_shape_of up (n_timestamps X) (lengths st ! i) (dilations st ! i))"
    and run: "sample_shapelet X up i im st = Inr st'"
  shows "same_params st st'" and "arrays_wf n X st'" and "populated X up st' i"
    and "\<And>j. j < n \<Longrightarrow> j \<noteq> i \<Longrightarrow>
          values_slice st' j = values_slice st j \<and> channels_slice st' j = channels_slice st j
          \<and> id_samples st' ! j = id_samples st ! j
          \<and> start_positions st' ! j = start_positions st ! j"
proof -
  let ?L = "lengths st ! i" and ?d = "dilations st ! i" and ?nc = "n_channels st ! i"
  let ?nrm = "normalize_flags st ! i"
  from sample_shapelet_ex [OF run] obtain s g1 p g2 chs g3 vals values' cids' where
    c1: "choice (map fst im) (rng st) = Inr (s, g1)" and
    c2: "choice (map snd (filter (\<lambda>sp. fst sp = s) im)) g1 = Inr (p, g2)" and
    c3: "choice_no_replace [0..<n_features X] ?nc g2 = Inr (chs, g3)" and
    fv: "fill_values X s p ?L ?d ?nrm up chs 0 (replicate (?nc * ?L) 0) = Inr vals" and
    s1: "set_slice (shp_values st) (a1 st ! i) (a1 st ! (i + 1)) vals = Inr values'" and
    s2: "set_slice (channel_ids st) (a2 st ! i) (a2 st ! (i + 1)) chs = Inr cids'" and
    st': "st' = st\<lparr>id_samples := (id_samples st)[i := s],
              start_positions := (start_positions st)[i := p],
              shp_values := values', channel_ids := cids', rng := g3\<rparr>"
    by blast
  note o = wf_offsets [OF wf i]
  have s_ok: "s < n_samples X" using choice_mem [OF c1] im by auto
  have p_ok: "p < slice_stop (n_timestamps X) (d_shape_of up (n_timestamps X) ?L ?d)"
    using choice_mem [OF c2] im by auto
  note ch = choice_no_replace_post [OF c3]
  have lch: "length chs = ?nc" using ch by simp
  have "bind_e (extract_all X s p ?L ?d ?nrm up chs)
          (\<lambda>w. Inr (take 0 (replicate (?nc * ?L) 0) @ w
                      @ drop (0 + length chs * ?L) (replicate (?nc * ?L) (0::real)))) = Inr vals"
    using fv by (subst fill_values_eq [symmetric]) (simp_all add: lch)
  then have ex: "extract_all X s p ?L ?d ?nrm up chs = Inr vals"
    by (auto simp: bind_e_eq_Inr lch)
  have lvals: "length vals = ?nc * ?L" using extract_all_length [OF ex] lch by simp
  have le1: "a1 st ! i \<le> a1 st ! (i + 1)" and le2: "a2 st ! i \<le> a2 st ! (i + 1)"
    using o by simp_all
  have fit1: "length vals = a1 st ! (i + 1) - a1 st ! i" using o lvals by simp
  have fit2: "length chs = a2 st ! (i + 1) - a2 st ! i" using o lch by simp
  have v': "values' = take (a1 st ! i) (shp_values st) @ vals @ drop (a1 st ! (i + 1)) (shp_values st)"
    using s1 set_slice_fit [OF le1 o(2) fit1] by simp
  have c': "cids' = take (a2 st ! i) (channel_ids st) @ chs @ drop (a2 st ! (i + 1)) (channel_ids st)"
    using s2 set_slice_fit [OF le2 o(4) fit2] by simp
  show sp: "same_params st st'" by (simp add: same_params_def st')
  show "arrays_wf n X st'"
    using wf set_slice_length [OF s1] set_slice_length [OF s2]
    by (simp add: arrays_wf_def st')
  have vs: "values_slice st' i = vals"
    unfolding values_slice_def using slice_replaced_same [OF le1 o(2) fit1]
    by (simp add: st' v')
  have cs: "channels_slice st' i = chs"
    unfolding channels_slice_def using slice_replaced_same [OF le2 o(4) fit2]
    by (simp add: st' c')
  have li: "i < length (id_samples st)" "i < length (start_positions st)"
    using wf i by (auto simp: arrays_wf_def)
  show "populated X up st' i"
    unfolding populated_def vs cs
    using s_ok p_ok ch ex li by (simp add: st')
  show "values_slice st' j = values_slice st j \<and> channels_slice st' j = channels_slice st j
          \<and> id_samples st' ! j = id_samples st ! j
          \<and> start_positions st' ! j = start_positions st ! j" if j: "j < n" "j \<noteq> i" for j
  proof (cases "j < i")
    case True
    then have "j + 1 \<le> i" by simp
    from wf_offsets_mono [OF wf this] i
    have b: "a1 st ! (j + 1) \<le> a1 st ! i" "a2 st ! (j + 1) \<le> a2 st ! i" by simp_all
    show ?thesis
      unfolding values_slice_def channels_slice_def
      using slice_replaced_before [OF le1 o(2) fit1 b(1)]
        slice_replaced_before [OF le2 o(4) fit2 b(2)] j
      by (simp add: st' v' c')
  next
    case False
    then have "i + 1 \<le> j" using j by simp
    from wf_offsets_mono [OF wf this] j
    have b: "a1 st ! (i + 1) \<le> a1 st ! j" "a2 st ! (i + 1) \<le> a2 st ! j" by simp_all
    show ?thesis
      unfolding values_slice_def channels_slice_def
      using slice_replaced_after [OF le1 o(2) fit1 b(1)]
        slice_replaced_after [OF le2 o(4) fit2 b(2)] j
      by (simp add: st' v' c')
  qed
qed

lemma candidates_mem:
  "(s, p) \<in> set (candidates X alpha up i_d i st) \<Longrightarrow>
     s < n_samples X \<and>
     p < slice_stop (n_timestamps X)
           (d_shape_of up (n_timestamps X) (lengths st ! i) (dilations st ! i))"
  unfolding candidates_def by (rule i_mask_mem)

lemma candidates_wf:
  assumes "arrays_wf n X st" "i_d < length (unique (dilations st))"
  shows "candidates X alpha up i_d i st \<noteq> [] \<longleftrightarrow> admissible X alpha up st i"
proof -
  have "mask_sampling st ! (if normalize_flags st ! i then 1 else 0) ! i_d
      = replicate (n_samples X) (replicate (n_features X) (replicate (n_timestamps X) True))"
    using assms by (simp add: arrays_wf_def ones5_def)
  then show ?thesis
    by (simp add: candidates_def admissible_def i_mask_all_true_nonempty)
qed

lemma admissible_same_params:
  "same_params st0 st \<Longrightarrow> admissible X alpha up st i = admissible X alpha up st0 i"
  by (simp add: admissible_def same_params_def)

lemma same_params_refl [simp]: "same_params st st"
  by (simp add: same_params_def)

lemma same_params_trans: "same_params st0 st \<Longrightarrow> same_params st st' \<Longrightarrow> same_params st0 st'"
  by (simp add: same_params_def)

lemma populated_cong:
  assumes "same_params st st'"
    "values_slice st' j = values_slice st j" "channels_slice st' j = channels_slice st j"
    "id_samples st' ! j = id_samples st ! j" "start_positions st' ! j = start_positions st ! j"
  shows "populated X up st' j = populated X up st j"
  using assms by (simp add: populated_def same_params_def)

lemma untouched_cong:
  assumes "same_params st st'"
    "values_slice st' j = values_slice st j" "channels_slice st' j = channels_slice st j"
    "id_samples st' ! j = id_samples st ! j" "start_positions st' ! j = start_positions st ! j"
  shows "untouched st' j = untouched st j"
  using assms by (simp add: untouched_def same_params_def)

lemma shapelet_step_post:
  assumes inv: "loop_inv n X alpha up st0 D st" and i: "i < n"
    and i_d: "i_d < length (unique (dilations st0))"
    and run: "shapelet_step X alpha up i_d i st = Inr st'"
  shows "loop_inv n X alpha up st0 (insert i D) st'"
proof -
  have sp: "same_params st0 st" and wf: "arrays_wf n X st"
    and each: "\<And>j. j < n \<Longrightarrow> if j \<in> D \<and> admissible X alpha up st0 j
                    then populated X up st j else untouched st j"
    using inv by (auto simp: loop_inv_def)
  have i_d': "i_d < length (unique (dilations st))" using i_d sp by (simp add: same_params_def)
  note adm = candidates_wf [OF wf i_d', of alpha up i, unfolded admissible_same_params [OF sp]]
  show ?thesis
  proof (cases "admissible X alpha up st0 i")
    case False
    then have "st' = st" using run adm by (simp add: shapelet_step_def Let_def)
    moreover have "untouched st i" using each [OF i] False by simp
    ultimately show ?thesis using inv False i unfolding loop_inv_def by auto
  next
    case True
    then have run': "sample_shapelet X up i (candidates X alpha up i_d i st) st = Inr st'"
      using run adm by (simp add: shapelet_step_def Let_def)
    have post1: "same_params st st'"
      by (rule sample_shapelet_post(1) [OF wf i _ run']) (erule candidates_mem)
    have post2: "arrays_wf n X st'"
      by (rule sample_shapelet_post(2) [OF wf i _ run']) (erule candidates_mem)
    have post3: "populated X up st' i"
      by (rule sample_shapelet_post(3) [OF wf i _ run']) (erule candidates_mem)
    have post4: "values_slice st' j = values_slice st j \<and> channels_slice st' j = channels_slice st j
          \<and> id_samples st' ! j = id_samples st ! j
          \<and> start_positions st' ! j = start_positions st ! j" if "j < n" "j \<noteq> i" for j
      by (rule sample_shapelet_post(4) [OF wf i _ run' that]) (erule candidates_mem)
    have "if j \<in> insert i D \<and> admissible X alpha up st0 j
            then populated X up st' j else untouched st' j" if j: "j < n" for j
    proof (cases "j = i")
      case True
      then show ?thesis using post3 \<open>admissible X alpha up st0 i\<close> by simp
    next
      case False
      note same = post4 [OF j False]
      have "populated X up st' j = populated X up st j"
        using post1 same by (intro populated_cong) auto
      moreover have "untouched st' j = untouched st j"
        using post1 same by (intro untouched_cong) auto
      ultimately show ?thesis using each [OF j] False by simp
    qed
    then show ?thesis
      using same_params_trans [OF sp post1] post2 by (simp add: loop_inv_def)
  qed
qed

lemma extract_all_total:
  assumes "s < n_samples X" "list_all (\<lambda>c. c < n_features X) cs"
    and "if up then 0 < n_timestamps X \<or> L = 0 else L = 0 \<or> p + (L - 1) * d < n_timestamps X"
  shows "\<exists>w. extract_all X s p L d nrm up cs = Inr w"
  using assms(2)
proof (induction cs)
  case Nil
  then show ?case by simp
next
  case (Cons c cs)
  then obtain w where w: "extract_all X s p L d nrm up cs = Inr w" by auto
  have "c < n_features X" using Cons.prems by simp
  then have "\<exists>v. extract_channel X s p L d nrm up c = Inr v"
    using assms(1,3)
    by (auto simp: extract_channel_def channel_row_def get_subsequence_def Let_def
          split: if_splits)
  then show ?case using w by auto
qed

lemma sample_shapelet_total:
  assumes wf: "arrays_wf n X st" and i: "i < n" and ne: "im \<noteq> []"
    and im: "\<And>s p. (s, p) \<in> set im \<Longrightarrow> s < n_samples X \<and>
        p < slice_stop (n_timestamps X)
              (d_shape_of up (n_timestamps X) (lengths st ! i) (dilations st ! i))"
    and nc: "n_channels st ! i \<le> n_features X"
    and ds: "up \<or> 0 \<le> d_shape_of False (n_timestamps X) (lengths st ! i) (dilations st ! i)"
  shows "\<exists>st'. sample_shapelet X up i im st = Inr st'"
proof -
  let ?L = "lengths st ! i" and ?d = "dilations st ! i" and ?nc = "n_channels st ! i"
  let ?nrm = "normalize_flags st ! i" and ?T = "n_timestamps X"
  obtain s g1 where c1: "choice (map fst im) (rng st) = Inr (s, g1)"
    using choice_total [of "map fst im" "rng st"] ne by auto
  from choice_mem [OF c1] obtain p0 where sp0: "(s, p0) \<in> set im" by auto
  then have "filter (\<lambda>sp. fst sp = s) im \<noteq> []"
    by (force simp: filter_empty_conv)
  then obtain p g2 where c2: "choice (map snd (filter (\<lambda>sp. fst sp = s) im)) g1 = Inr (p, g2)"
    using choice_total [of "map snd (filter (\<lambda>sp. fst sp = s) im)" g1] by auto
  have s_ok: "s < n_samples X" using sp0 im by auto
  have p_ok: "p < slice_stop ?T (d_shape_of up ?T ?L ?d)"
    using choice_mem [OF c2] im by auto
  obtain chs g3 where c3: "choice_no_replace [0..<n_features X] ?nc g2 = Inr (chs, g3)"
    using choice_no_replace_total [of ?nc "[0..<n_features X]" g2] nc by auto
  note ch = choice_no_replace_post [OF c3]
  have lch: "length chs = ?nc" using ch by simp
  have pre: "if up then 0 < ?T \<or> ?L = 0 else ?L = 0 \<or> p + (?L - 1) * ?d < ?T"
  proof (cases up)
    case True
    then have "p < ?T" using p_ok slice_stop_le [of ?T "int ?T"] by (simp add: d_shape_of_def)
    then show ?thesis using True by simp
  next
    case False
    then have nn: "0 \<le> d_shape_of False ?T ?L ?d" using ds by simp
    have "int p < d_shape_of False ?T ?L ?d"
      using p_ok slice_stop_nonneg [OF nn, of ?T] False by simp
    then have lt: "int p < int ?T - (int ?L - 1) * int ?d" by (simp add: d_shape_of_def)
    show ?thesis
    proof (cases "?L = 0")
      case True
      then show ?thesis using False by simp
    next
      case nz: False
      then have "int (?L - 1) = int ?L - 1" by linarith
      then have "int (p + (?L - 1) * ?d) < int ?T" using lt by simp
      then have "p + (?L - 1) * ?d < ?T" by linarith
      then show ?thesis using False by simp
    qed
  qed
  obtain w where ex: "extract_all X s p ?L ?d ?nrm up chs = Inr w"
    using extract_all_total [OF s_ok _ pre] ch by blast
  have lw: "length w = ?nc * ?L" using extract_all_length [OF ex] lch by simp
  have fv: "fill_values X s p ?L ?d ?nrm up chs 0 (replicate (?nc * ?L) 0) = Inr w"
    by (subst fill_values_eq) (simp_all add: lch ex)
  note o = wf_offsets [OF wf i]
  have le1: "a1 st ! i \<le> a1 st ! (i + 1)" and le2: "a2 st ! i \<le> a2 st ! (i + 1)"
    using o by simp_all
  have fit1: "length w = a1 st ! (i + 1) - a1 st ! i" using o lw by simp
  have fit2: "length chs = a2 st ! (i + 1) - a2 st ! i" using o lch by simp
  have ss1: "set_slice (shp_values st) (a1 st ! i) (a1 st ! Suc i) w
      = Inr (take (a1 st ! i) (shp_values st) @ w @ drop (a1 st ! Suc i) (shp_values st))"
    using set_slice_fit [OF le1 o(2) fit1] by simp
  have ss2: "set_slice (channel_ids st) (a2 st ! i) (a2 st ! Suc i) chs
      = Inr (take (a2 st ! i) (channel_ids st) @ chs @ drop (a2 st ! Suc i) (channel_ids st))"
    using set_slice_fit [OF le2 o(4) fit2] by simp
  show ?thesis
    unfolding sample_shapelet_def
    by (simp add: c1 c2 c3 fv ss1 ss2)
qed

lemma shapelet_step_total:
  assumes inv: "loop_inv n X alpha up st0 D st" and i: "i < n"
    and i_d: "i_d < length (unique (dilations st0))"
    and nc: "n_channels st0 ! i \<le> n_features X"
    and ds: "up \<or> 0 \<le> d_shape_of False (n_timestamps X) (lengths st0 ! i) (dilations st0 ! i)"
  shows "\<exists>st'. shapelet_step X alpha up i_d i st = Inr st'"
proof -
  have sp: "same_params st0 st" and wf: "arrays_wf n X st"
    using inv by (auto simp: loop_inv_def)
  show ?thesis
  proof (cases "candidates X alpha up i_d i st = []")
    case True
    then show ?thesis by (simp add: shapelet_step_def)
  next
    case False
    have nc': "n_channels st ! i \<le> n_features X"
      and ds': "up \<or> 0 \<le> d_shape_of False (n_timestamps X) (lengths st ! i) (dilations st ! i)"
      using nc ds sp by (auto simp: same_params_def)
    have "\<exists>st'. sample_shapelet X up i (candidates X alpha up i_d i st) st = Inr st'"
      by (rule sample_shapelet_total [OF wf i False _ nc' ds']) (erule candidates_mem)
    then show ?thesis using False by (simp add: shapelet_step_def)
  qed
qed

section \<open>The two loops\<close>

lemma inner_loop_post:
  assumes "efold (shapelet_step X alpha up i_d) js st = Inr st'"
    and "loop_inv n X alpha up st0 D st"
    and "set js \<subseteq> {..<n}"
    and "i_d < length (unique (dilations st0))"
  shows "loop_inv n X alpha up st0 (D \<union> set js) st'"
  using assms(1,2,3)
proof (induction js arbitrary: D st)
  case Nil
  then show ?case by simp
next
  case (Cons j js)
  from Cons.prems(1) obtain t where t: "shapelet_step X alpha up i_d j st = Inr t"
    and r: "efold (shapelet_step X alpha up i_d) js t = Inr st'"
    by (auto simp: bind_e_eq_Inr)
  have "j < n" using Cons.prems(3) by simp
  from shapelet_step_post [OF Cons.prems(2) this assms(4) t]
  have "loop_inv n X alpha up st0 (insert j D) t" .
  from Cons.IH [OF r this] Cons.prems(3)
  show ?case by simp
qed

lemma inner_loop_total:
  assumes "loop_inv n X alpha up st0 D st"
    and "set js \<subseteq> {..<n}"
    and "i_d < length (unique (dilations st0))"
    and nc: "\<forall>i<n. n_channels st0 ! i \<le> n_features X"
    and ds: "\<forall>i<n.
      up \<or> 0 \<le> d_shape_of False (n_timestamps X) (lengths st0 ! i) (dilations st0 ! i)"
  shows "\<exists>st'. efold (shapelet_step X alpha up i_d) js st = Inr st'
           \<and> loop_inv n X alpha up st0 (D \<union> set js) st'"
  using assms(1,2)
proof (induction js arbitrary: D st)
  case Nil
  then show ?case by simp
next
  case (Cons j js)
  have j: "j < n" using Cons.prems(2) by simp
  from shapelet_step_total [OF Cons.prems(1) j assms(3)] nc ds j
  obtain t where t: "shapelet_step X alpha up i_d j st = Inr t" by blast
  from shapelet_step_post [OF Cons.prems(1) j assms(3) t]
  have "loop_inv n X alpha up st0 (insert j D) t" .
  from Cons.IH [OF this] Cons.prems(2)
  show ?case using t by simp
qed

lemma outer_loop_post:
  assumes "efold (\<lambda>i_d. efold (shapelet_step X alpha up i_d) (grp i_d)) ids st = Inr st'"
    and "loop_inv n X alpha up st0 D st"
    and "\<forall>i_d\<in>set ids.
           i_d < length (unique (dilations st0)) \<and> set (grp i_d) \<subseteq> {..<n}"
  shows "loop_inv n X alpha up st0 (D \<union> (\<Union>i_d\<in>set ids. set (grp i_d))) st'"
  using assms
proof (induction ids arbitrary: D st)
  case Nil
  then show ?case by simp
next
  case (Cons k ids)
  from Cons.prems(1) obtain t where t: "efold (shapelet_step X alpha up k) (grp k) st = Inr t"
    and r: "efold (\<lambda>i_d. efold (shapelet_step X alpha up i_d) (grp i_d)) ids t = Inr st'"
    by (auto simp: bind_e_eq_Inr)
  have k: "k < length (unique (dilations st0))" "set (grp k) \<subseteq> {..<n}"
    using Cons.prems(3) by auto
  from inner_loop_post [OF t Cons.prems(2) k(2) k(1)]
  have "loop_inv n X alpha up st0 (D \<union> set (grp k)) t" .
  from Cons.IH [OF r this] Cons.prems(3)
  have "loop_inv n X alpha up st0 (D \<union> set (grp k) \<union> (\<Union>i_d\<in>set ids. set (grp i_d))) st'"
    by simp
  then show ?case by (simp add: Un_assoc)
qed

lemma outer_loop_total:
  assumes "loop_inv n X alpha up st0 D st"
    and "\<forall>i_d\<in>set ids.
           i_d < length (unique (dilations st0)) \<and> set (grp i_d) \<subseteq> {..<n}"
    and nc: "\<forall>i<n. n_channels st0 ! i \<le> n_features X"
    and ds: "\<forall>i<n.
      up \<or> 0 \<le> d_shape_of False (n_timestamps X) (lengths st0 ! i) (dilations st0 ! i)"
  shows "\<exists>st'. efold (\<lambda>i_d. efold (shapelet_step X alpha up i_d) (grp i_d)) ids st = Inr st'
           \<and> loop_inv n X alpha up st0 (D \<union> (\<Union>i_d\<in>set ids. set (grp i_d))) st'"
  using assms(1,2)
proof (induction ids arbitrary: D st)
  case Nil
  then show ?case by simp
next
  case (Cons k ids)
  have k: "k < length (unique (dilations st0))" "set (grp k) \<subseteq> {..<n}"
    using Cons.prems(2) by auto
  from inner_loop_total [OF Cons.prems(1) k(2) k(1) nc ds]
  obtain t where t: "efold (shapelet_step X alpha up k) (grp k) st = Inr t"
    and inv: "loop_inv n X alpha up st0 (D \<union> set (grp k)) t" by blast
  from Cons.IH [OF inv] Cons.prems(2)
  obtain st' where "efold (\<lambda>i_d. efold (shapelet_step X alpha up i_d) (grp i_d)) ids t = Inr st'"
    and "loop_inv n X alpha up st0 (D \<union> set (grp k) \<union> (\<Union>i_d\<in>set ids. set (grp i_d))) st'"
    by auto
  then show ?case using t by (simp add: Un_assoc)
qed

lemma groups_cover:
  assumes "length ds = n"
  shows "(\<Union>i_d\<in>{0..<length (unique ds)}. set (where_eq ds (unique ds ! i_d))) = {..<n}"
proof
  show "(\<Union>i_d\<in>{0..<length (unique ds)}. set (where_eq ds (unique ds ! i_d))) \<subseteq> {..<n}"
    using assms by (auto simp: where_eq_def)
  show "{..<n} \<subseteq> (\<Union>i_d\<in>{0..<length (unique ds)}. set (where_eq ds (unique ds ! i_d)))"
  proof
    fix i assume "i \<in> {..<n}"
    then have i: "i < length ds" using assms by simp
    then have "ds ! i \<in> set (unique ds)" by (simp add: unique_def)
    then obtain k where "k < length (unique ds)" "unique ds ! k = ds ! i"
      by (auto simp: in_set_conv_nth)
    then show "i \<in> (\<Union>i_d\<in>{0..<length (unique ds)}. set (where_eq ds (unique ds ! i_d)))"
      using i by (auto simp: where_eq_def intro!: bexI [of _ k])
  qed
qed

lemma loop_inv_start:
  assumes "arrays_wf n X st0" "\<forall>i<n. untouched st0 i"
  shows "loop_inv n X alpha up st0 {} st0"
  using assms by (simp add: loop_inv_def)

lemma generate_loop_post:
  assumes wf: "arrays_wf n X st0" and z: "\<forall>i<n. untouched st0 i"
    and run: "generate_loop X alpha up st0 = Inr st'"
  shows "loop_inv n X alpha up st0 {..<n} st'"
proof -
  have len: "length (dilations st0) = n" using wf by (simp add: arrays_wf_def)
  have g: "\<forall>i_d\<in>set [0..<length (unique (dilations st0))].
      i_d < length (unique (dilations st0))
      \<and> set (where_eq (dilations st0) (unique (dilations st0) ! i_d)) \<subseteq> {..<n}"
    using len by (auto simp: where_eq_def)
  from outer_loop_post [OF run [unfolded generate_loop_def] loop_inv_start [OF wf z] g]
  show ?thesis by (simp add: groups_cover [OF len])
qed

lemma generate_loop_total:
  assumes wf: "arrays_wf n X st0" and z: "\<forall>i<n. untouched st0 i"
    and nc: "\<forall>i<n. n_channels st0 ! i \<le> n_features X"
    and ds: "\<forall>i<n.
      up \<or> 0 \<le> d_shape_of False (n_timestamps X) (lengths st0 ! i) (dilations st0 ! i)"
  shows "\<exists>st'. generate_loop X alpha up st0 = Inr st' \<and> loop_inv n X alpha up st0 {..<n} st'"
proof -
  have len: "length (dilations st0) = n" using wf by (simp add: arrays_wf_def)
  have g: "\<forall>i_d\<in>set [0..<length (unique (dilations st0))].
      i_d < length (unique (dilations st0))
      \<and> set (where_eq (dilations st0) (unique (dilations st0) ! i_d)) \<subseteq> {..<n}"
    using len by (auto simp: where_eq_def)
  from outer_loop_total [OF loop_inv_start [OF wf z] g nc ds]
  show ?thesis unfolding generate_loop_def by (simp add: groups_cover [OF len])
qed

section \<open>The state the loops start from, and the whole generation\<close>

lemma slice_replicate: "b \<le> m \<Longrightarrow> slice (replicate m x) a b = replicate (b - a) x"
  by (auto simp: slice_def min_def)

lemma init_state_ex:
  assumes "init_state ext X n sizes r_seed p_norm mc prime g0 = Inr st0"
  shows "\<exists>S g. M_SL_init_random_shapelet_params ext n sizes (n_timestamps X) p_norm mc prime
            (seed (mt ext) r_seed g0) = Inr (S, g) \<and>
      st0 = shapelets.extend S
           \<lparr>id_samples = replicate n 0,
            start_positions = replicate n 0,
            mask_sampling = ones5 2 (length (unique (dilations S))) (n_samples X)
                              (n_features X) (n_timestamps X),
            mask_return = replicate n True,
            a1 = offsets (map2 (*) (n_channels S) (lengths S)),
            a2 = offsets (n_channels S),
            rng = g\<rparr>"
  using assms unfolding init_state_def by (auto simp: bind_e_eq_Inr)

lemma init_state_post:
  assumes "init_state ext X n sizes r_seed p_norm mc prime g0 = Inr st0"
  shows "arrays_wf n X st0" and "\<forall>i<n. untouched st0 i"
    and "\<forall>i<n. lengths st0 ! i \<in> set sizes"
    and "\<forall>i<n. 1 \<le> n_channels st0 ! i \<and> n_channels st0 ! i \<le> mc"
    and "\<forall>i<n. 1 \<le> (int (n_timestamps X) - 1) div (int (lengths st0 ! i) - 1)
           \<and> int (dilations st0 ! i) \<le> (int (n_timestamps X) - 1) div (int (lengths st0 ! i) - 1)"
    and "\<not> prime \<Longrightarrow> \<forall>i<n. 1 \<le> dilations st0 ! i"
    and "mask_sampling st0 = ones5 2 (length (unique (dilations st0))) (n_samples X)
                              (n_features X) (n_timestamps X)"
proof -
  from init_state_ex [OF assms] obtain S g where
    p: "M_SL_init_random_shapelet_params ext n sizes (n_timestamps X) p_norm mc prime
            (seed (mt ext) r_seed g0) = Inr (S, g)" and
    st0: "st0 = shapelets.extend S
           \<lparr>id_samples = replicate n 0,
            start_positions = replicate n 0,
            mask_sampling = ones5 2 (length (unique (dilations S))) (n_samples X)
                              (n_features X) (n_timestamps X),
            mask_return = replicate n True,
            a1 = offsets (map2 (*) (n_channels S) (lengths S)),
            a2 = offsets (n_channels S),
            rng = g\<rparr>"
    by blast
  note l = init_params_lengths [OF p]
  have f: "lengths st0 = lengths S" "dilations st0 = dilations S"
    "n_channels st0 = n_channels S" "normalize_flags st0 = normalize_flags S"
    "shp_values st0 = shp_values S" "channel_ids st0 = channel_ids S"
    "id_samples st0 = replicate n 0" "start_positions st0 = replicate n 0"
    "a1 st0 = offsets (map2 (*) (n_channels S) (lengths S))"
    "a2 st0 = offsets (n_channels S)"
    "mask_sampling st0 = ones5 2 (length (unique (dilations S))) (n_samples X)
                              (n_features X) (n_timestamps X)"
    by (simp_all add: st0 shapelets.extend_def)
  have dot: "dot (lengths S) (n_channels S) = sum_list (map2 (*) (n_channels S) (lengths S))"
    by (simp add: dot_def map2_mult_commute [of "lengths S"])
  show wf: "arrays_wf n X st0"
    using l by (simp add: arrays_wf_def f dot)
  show "\<forall>i<n. untouched st0 i"
  proof (intro allI impI)
    fix i assume i: "i < n"
    note o = wf_offsets [OF wf i]
    have "values_slice st0 i = replicate (n_channels st0 ! i * lengths st0 ! i) 0"
      unfolding values_slice_def using o(1,2) l
      by (simp add: f slice_replicate dot)
    moreover have "channels_slice st0 i = replicate (n_channels st0 ! i) 0"
      unfolding channels_slice_def using o(3,4) l
      by (simp add: f slice_replicate)
    ultimately show "untouched st0 i" using i by (simp add: untouched_def f)
  qed
  show "\<forall>i<n. lengths st0 ! i \<in> set sizes"
    using init_params_nth(1) [OF p] by (simp add: f)
  show "\<forall>i<n. 1 \<le> n_channels st0 ! i \<and> n_channels st0 ! i \<le> mc"
    using init_params_nth(2) [OF p] by (simp add: f)
  show "\<forall>i<n. 1 \<le> (int (n_timestamps X) - 1) div (int (lengths st0 ! i) - 1)
           \<and> int (dilations st0 ! i) \<le> (int (n_timestamps X) - 1) div (int (lengths st0 ! i) - 1)"
    using init_params_nth(3,4) [OF p] by (simp add: f)
  show "\<forall>i<n. 1 \<le> dilations st0 ! i" if "\<not> prime"
    using init_params_nth(5) [OF p _ that] by (auto simp: f)
  show "mask_sampling st0 = ones5 2 (length (unique (dilations st0))) (n_samples X)
                              (n_features X) (n_timestamps X)"
    by (simp add: f)
qed

lemma init_state_d_shape:
  assumes "init_state ext X n sizes r_seed p_norm mc prime g0 = Inr st0"
    and "list_all (\<lambda>L. 1 \<le> L) sizes" and "i < n"
  shows "1 \<le> d_shape_of False (n_timestamps X) (lengths st0 ! i) (dilations st0 ! i)"
    and "1 \<le> lengths st0 ! i" and "lengths st0 ! i \<le> n_timestamps X"
proof -
  note post = init_state_post [OF assms(1)]
  have L: "1 \<le> lengths st0 ! i" using post(3) assms(2,3) by (auto simp: list_all_iff)
  then show "1 \<le> lengths st0 ! i" .
  have q: "1 \<le> (int (n_timestamps X) - 1) div (int (lengths st0 ! i) - 1)"
    "int (dilations st0 ! i) \<le> (int (n_timestamps X) - 1) div (int (lengths st0 ! i) - 1)"
    using post(5) assms(3) by auto
  have "(int (lengths st0 ! i) - 1) * int (dilations st0 ! i) \<le> int (n_timestamps X) - 1"
    using q L by (intro quotient_bound) auto
  then show "1 \<le> d_shape_of False (n_timestamps X) (lengths st0 ! i) (dilations st0 ! i)"
    by (simp add: d_shape_of_def)
  have "(int (lengths st0 ! i) - 1) * 1 \<le> int (n_timestamps X) - 1"
    using q(1) L by (intro quotient_bound) auto
  then show "lengths st0 ! i \<le> n_timestamps X" by simp
qed

lemma generate_state_ex:
  assumes "generate_state ext g0 X y n sizes r_seed p_norm p_min p_max alpha up mc prime = Inr st"
  shows "\<exists>st0. init_state ext X n sizes r_seed p_norm mc prime g0 = Inr st0
      \<and> generate_loop X alpha up st0 = Inr st"
  using assms by (auto simp: generate_state_def bind_e_eq_Inr)

lemma generate_state_inv:
  assumes "generate_state ext g0 X y n sizes r_seed p_norm p_min p_max alpha up mc prime = Inr st"
  shows "\<exists>st0. init_state ext X n sizes r_seed p_norm mc prime g0 = Inr st0
      \<and> loop_inv n X alpha up st0 {..<n} st"
proof -
  from generate_state_ex [OF assms] obtain st0 where
    i: "init_state ext X n sizes r_seed p_norm mc prime g0 = Inr st0"
    and l: "generate_loop X alpha up st0 = Inr st" by blast
  note post = init_state_post [OF i]
  from generate_loop_post [OF post(1,2) l] i show ?thesis by blast
qed

section \<open>Start positions and candidates\<close>

lemma slice_stop_nat: "0 \<le> k \<Longrightarrow> k \<le> int n \<Longrightarrow> slice_stop n k = nat k"
  by (auto simp: slice_stop_def)

lemma set_all_pairs:
  "set (concat (map (\<lambda>s. map (\<lambda>p. (s, p)) [0..<P]) [0..<ns])) = {(s, p). s < ns \<and> p < P}"
  by force

lemma candidates_wf_set:
  assumes "arrays_wf n X st" "i_d < length (unique (dilations st))"
  shows "set (candidates X alpha up i_d i st) =
     (if real (n_channels st ! i) * alpha \<le> real (n_features X)
      then {(s, p). s < n_samples X \<and>
              p < slice_stop (n_timestamps X)
                    (d_shape_of up (n_timestamps X) (lengths st ! i) (dilations st ! i))}
      else {})"
proof -
  have "mask_sampling st ! (if normalize_flags st ! i then 1 else 0) ! i_d
      = replicate (n_samples X) (replicate (n_features X) (replicate (n_timestamps X) True))"
    using assms by (simp add: arrays_wf_def ones5_def)
  then have c: "candidates X alpha up i_d i st =
     (if real (n_channels st ! i) * alpha \<le> real (n_features X)
      then concat (map (\<lambda>s. map (\<lambda>p. (s, p))
             [0..<slice_stop (n_timestamps X)
                    (d_shape_of up (n_timestamps X) (lengths st ! i) (dilations st ! i))])
             [0..<n_samples X])
      else [])"
    unfolding candidates_def by (simp only: i_mask_all_true)
  show ?thesis
  proof (cases "real (n_channels st ! i) * alpha \<le> real (n_features X)")
    case True
    then show ?thesis unfolding c by (simp only: if_True set_all_pairs)
  next
    case False
    then show ?thesis unfolding c by (simp only: if_False list.set(1))
  qed
qed

lemma loop_inv_start_bound:
  assumes inv: "loop_inv n X alpha False st0 {..<n} st" and i: "i < n"
    and ds: "1 \<le> d_shape_of False (n_timestamps X) (lengths st0 ! i) (dilations st0 ! i)"
  shows "int (start_positions st ! i)
     < d_shape_of False (n_timestamps X) (lengths st ! i) (dilations st ! i)"
proof -
  have sp: "lengths st = lengths st0" "dilations st = dilations st0"
    using inv by (auto simp: loop_inv_def same_params_def)
  have "populated X False st i \<or> untouched st i"
    using inv i by (auto simp: loop_inv_def split: if_splits)
  then show ?thesis
  proof
    assume "populated X False st i"
    then have "start_positions st ! i < slice_stop (n_timestamps X)
        (d_shape_of False (n_timestamps X) (lengths st ! i) (dilations st ! i))"
      by (simp add: populated_def)
    moreover have "int (slice_stop (n_timestamps X)
        (d_shape_of False (n_timestamps X) (lengths st ! i) (dilations st ! i)))
        \<le> d_shape_of False (n_timestamps X) (lengths st ! i) (dilations st ! i)"
      using ds by (intro slice_stop_nonneg) (simp add: sp)
    ultimately show ?thesis by linarith
  next
    assume "untouched st i"
    then show ?thesis using ds by (simp add: untouched_def sp)
  qed
qed

text \<open>
  C8. Without phase invariance, for a shapelet of length \<open>L\<close> (at least 1) and dilation
  \<open>d\<close> over \<open>T\<close> timestamps: every candidate start position \<open>p\<close> of the shapelet
  satisfies \<open>p + (L-1)*d < T\<close>, the position \<open>T-(L-1)*d-1\<close> is a candidate of every sample
  whenever the shapelet has candidates at all, and the start position recorded for the
  shapelet by a generation that returns satisfies \<open>start_position + (L-1)*d < T\<close>.
\<close>

theorem recorded_start_in_bounds:
  assumes run: "generate_state ext g0 X y n sizes r_seed p_norm p_min p_max alpha False mc prime
                  = Inr st"
    and sizes: "list_all (\<lambda>L. 1 \<le> L) sizes" and i: "i < n"
  shows "start_positions st ! i + (lengths st ! i - 1) * dilations st ! i < n_timestamps X
    \<and> (\<forall>i_d<length (unique (dilations st)). \<forall>s p.
          (s, p) \<in> set (candidates X alpha False i_d i st) \<longrightarrow>
            p + (lengths st ! i - 1) * dilations st ! i < n_timestamps X)
    \<and> (\<forall>i_d<length (unique (dilations st)). \<forall>s<n_samples X.
          candidates X alpha False i_d i st \<noteq> [] \<longrightarrow>
            (s, n_timestamps X - (lengths st ! i - 1) * dilations st ! i - 1)
               \<in> set (candidates X alpha False i_d i st))"
proof -
  let ?T = "n_timestamps X" and ?L = "lengths st ! i" and ?d = "dilations st ! i"
  from generate_state_inv [OF run] obtain st0 where
    init: "init_state ext X n sizes r_seed p_norm mc prime g0 = Inr st0"
    and inv: "loop_inv n X alpha False st0 {..<n} st" by blast
  have sp: "lengths st = lengths st0" "dilations st = dilations st0"
    and wf: "arrays_wf n X st"
    using inv by (auto simp: loop_inv_def same_params_def)
  note d0 = init_state_d_shape [OF init sizes i]
  have L: "1 \<le> ?L" using d0(2) by (simp add: sp)
  have ds: "1 \<le> d_shape_of False ?T ?L ?d" using d0(1) by (simp add: sp)
  have eq: "int (?L - 1) = int ?L - 1" using L by linarith
  have dsn: "d_shape_of False ?T ?L ?d = int ?T - int ((?L - 1) * ?d)"
    by (simp only: d_shape_of_def if_False of_nat_mult eq)
  have room: "(?L - 1) * ?d < ?T" using ds unfolding dsn by linarith
  have n: "nat (int ?T - int ((?L - 1) * ?d)) = ?T - (?L - 1) * ?d" by arith
  have "slice_stop ?T (d_shape_of False ?T ?L ?d) = nat (d_shape_of False ?T ?L ?d)"
    using ds unfolding dsn by (intro slice_stop_nat) auto
  then have stop: "slice_stop ?T (d_shape_of False ?T ?L ?d) = ?T - (?L - 1) * ?d"
    unfolding dsn n .
  have "int (start_positions st ! i) < d_shape_of False ?T ?L ?d"
    using loop_inv_start_bound [OF inv i d0(1)] .
  then have 1: "start_positions st ! i + (?L - 1) * ?d < ?T"
    unfolding dsn by linarith
  have 2: "p + (?L - 1) * ?d < ?T" if "(s, p) \<in> set (candidates X alpha False i_d i st)"
    for i_d s p
    using candidates_mem [OF that] room unfolding stop by linarith
  have 3: "(s, ?T - (?L - 1) * ?d - 1) \<in> set (candidates X alpha False i_d i st)"
    if "i_d < length (unique (dilations st))" "s < n_samples X"
      "candidates X alpha False i_d i st \<noteq> []" for i_d s
  proof -
    have "admissible X alpha False st i" using candidates_wf [OF wf that(1)] that(3) by simp
    then have "real (n_channels st ! i) * alpha \<le> real (n_features X)"
      by (simp add: admissible_def)
    then show ?thesis
      using candidates_wf_set [OF wf that(1), of alpha False i] that(2) room
      by (simp add: stop)
  qed
  show ?thesis using 1 2 3 by blast
qed

section \<open>The generation on the concrete inputs\<close>

lemmas init_eval = init_state_def M_SL_init_random_shapelet_params_def choice_size_def seed_def
     ex_ext_def ex_rng_def ex_X_def draw_dilations_def init_arrays_def
     rand_below_def next_raw_def random_sample_def uniform_def upper_bound_def power_dilations_def
     dot_def shapelets.extend_def unique_def offsets_def cumsum_def ones5_def

lemmas loop_eval = generate_loop_def unique_def where_eq_def shapelet_step_def candidates_def
  d_shape_of_def i_mask_def slice_stop_def sample_shapelet_def choice_def rand_below_def next_raw_def
  choice_no_replace_def channel_row_def get_subsequence_def set_slice_def Let_def ex_X_def

lemma replicate_2: "replicate 2 x = [x, x]"
  by (simp add: numeral_2_eq_2)

lemma replicate_3: "replicate 3 x = [x, x, x]"
  by (simp add: numeral_3_eq_3)

lemma replicate_6: "replicate 6 x = [x, x, x, x, x, x]"
  by (simp add: eval_nat_numeral)

lemma upt_2: "[0..<2] = [0, 1]"
  by (simp add: numeral_2_eq_2)

lemma upt_3: "[0..<3] = [0, 1, 2]"
  by (simp add: numeral_3_eq_3 numeral_2_eq_2)

lemmas small = replicate_2 replicate_3 replicate_6 upt_2 upt_3

lemma ex_init:
  "init_state ex_ext ex_X 1 [3] 0 0 mc False ex_rng
     = (if mc = 0 then Inl ValueError else Inr ex_st0)"
  by (simp add: init_eval ex_st0_def small)

lemma ex_loop_1: "generate_loop ex_X 1 False ex_st0 = Inr ex_st1"
  by (simp add: loop_eval ex_st0_def ex_st1_def small)

lemma ex_loop_2: "generate_loop ex_X 2 False ex_st0 = Inr ex_st0"
  by (simp add: loop_eval ex_st0_def small)

lemma ex_loop_m1: "generate_loop ex_X (- 1) False ex_st0 = Inr ex_st1"
  by (simp add: loop_eval ex_st0_def ex_st1_def small)

lemma ex_run_1:
  "generate_state ex_ext ex_rng ex_X [] 1 [3] 0 0 0 0 1 False 1 False = Inr ex_st1"
  unfolding generate_state_def ex_init by (simp add: ex_loop_1)

lemma ex_run_2:
  "generate_state ex_ext ex_rng ex_X [] 1 [3] 0 0 0 0 2 False 1 False = Inr ex_st0"
  unfolding generate_state_def ex_init by (simp add: ex_loop_2)

lemma ex_run_m1:
  "generate_state ex_ext ex_rng ex_X [] 1 [3] 0 0 0 0 (- 1) False 2 False = Inr ex_st1"
  unfolding generate_state_def ex_init by (simp add: ex_loop_m1)

lemma ex_init_two: "init_state ex_ext ex_X 2 [3] 0 0 1 False ex_rng = Inr ex_two0"
  by (simp add: init_eval ex_two0_def small)

lemma ex_loop_two: "generate_loop ex_X 1 False ex_two0 = Inr ex_two1"
  by (simp add: loop_eval ex_two0_def ex_two1_def small)

lemma ex_run_two:
  "generate_state ex_ext ex_rng ex_X [] 2 [3] 0 0 0 0 1 False 1 False = Inr ex_two1"
  unfolding generate_state_def ex_init_two by (simp add: ex_loop_two)


lemmas populated_eval = populated_def channels_slice_def values_slice_def slice_def slice_stop_def
  d_shape_of_def extract_channel_def channel_row_def get_subsequence_def ex_X_def

lemma ex_populated: "populated ex_X False ex_st1 0"
  by (simp add: populated_eval ex_st1_def ex_st0_def small)

lemma ex_two_populated: "populated ex_X False ex_two1 0 \<and> populated ex_X False ex_two1 1"
  by (simp add: populated_eval ex_two1_def ex_two0_def small)

lemma ex_untouched: "untouched ex_st0 0"
  by (simp add: untouched_def channels_slice_def values_slice_def slice_def ex_st0_def small)

lemma ex_candidates:
  "candidates ex_X 2 False 0 0 ex_st0 = []"
  "candidates ex_X 1 False 0 0 ex_st0 = [(0, 0)]"
  "candidates ex_X 1 False 0 0 ex_st1 = [(0, 0)]"
  by (simp_all add: candidates_def i_mask_def d_shape_of_def slice_stop_def ex_X_def
        ex_st0_def ex_st1_def small)

theorem recorded_start_in_bounds_witness:
  "generate_state ex_ext ex_rng ex_X [] 1 [3] 0 0 0 0 1 False 1 False = Inr ex_st1
   \<and> list_all (\<lambda>L. 1 \<le> L) [3::nat] \<and> (0::nat) < 1
   \<and> start_positions ex_st1 ! 0 + (lengths ex_st1 ! 0 - 1) * dilations ex_st1 ! 0
       < n_timestamps ex_X"
proof -
  have a: "list_all (\<lambda>L. 1 \<le> L) [3::nat]" by simp
  have b: "(0::nat) < 1" by simp
  from recorded_start_in_bounds [OF ex_run_1 a b]
  have "start_positions ex_st1 ! 0 + (lengths ex_st1 ! 0 - 1) * dilations ex_st1 ! 0
       < n_timestamps ex_X"
    by (rule conjunct1)
  then show ?thesis using ex_run_1 a b by blast
qed

section \<open>The occupancy mask and the shapelets without candidates\<close>

text \<open>
  C10. When the parameters have been drawn, \<open>1 \<le> max_channels \<le> n_features\<close>,
  \<open>0 \<le> alpha \<le> 1\<close>, there is a sample, and every sampled (length, dilation) pair has a
  valid start position (position 0: \<open>0 < T\<close> with phase invariance, \<open>(L-1)*d < T\<close>
  without), the generation returns, its occupancy mask is still all true, every shapelet
  has candidates, and every shapelet is populated.
\<close>

theorem valid_inputs_populate_every_shapelet:
  assumes init: "init_state ext X n sizes r_seed p_norm mc prime g0 = Inr st0"
    and mc: "1 \<le> mc" "mc \<le> n_features X"
    and alpha: "0 \<le> alpha" "alpha \<le> 1"
    and ns: "1 \<le> n_samples X"
    and start: "\<forall>i<n. (if up then 0 else (lengths st0 ! i - 1) * dilations st0 ! i)
                       < n_timestamps X"
  shows "\<exists>st. generate_state ext g0 X y n sizes r_seed p_norm p_min p_max alpha up mc prime
               = Inr st
    \<and> mask_sampling st = ones5 2 (length (unique (dilations st))) (n_samples X)
                              (n_features X) (n_timestamps X)
    \<and> (\<forall>i<n. \<forall>i_d<length (unique (dilations st)). candidates X alpha up i_d i st \<noteq> [])
    \<and> (\<forall>i<n. populated X up st i)"
proof -
  let ?T = "n_timestamps X"
  note post = init_state_post [OF init]
  have nc: "\<forall>i<n. n_channels st0 ! i \<le> n_features X"
    using post(4) mc(2) by (meson order.trans)
  have dsh: "0 \<le> d_shape_of False ?T (lengths st0 ! i) (dilations st0 ! i)
      \<and> 0 < slice_stop ?T (d_shape_of up ?T (lengths st0 ! i) (dilations st0 ! i))"
    if i: "i < n" for i
  proof (cases up)
    case True
    then have "0 < ?T" using start i by auto
    moreover have "0 \<le> d_shape_of False ?T (lengths st0 ! i) (dilations st0 ! i)"
    proof (cases "lengths st0 ! i = 0")
      case True
      then show ?thesis by (simp add: d_shape_of_def)
    next
      case False
      then have L: "1 \<le> lengths st0 ! i" by simp
      from init_state_post(5) [OF init] i
      have "1 \<le> (int ?T - 1) div (int (lengths st0 ! i) - 1)"
        "int (dilations st0 ! i) \<le> (int ?T - 1) div (int (lengths st0 ! i) - 1)"
        by auto
      then have "(int (lengths st0 ! i) - 1) * int (dilations st0 ! i) \<le> int ?T - 1"
        using L by (intro quotient_bound) auto
      then show ?thesis by (simp add: d_shape_of_def)
    qed
    ultimately show ?thesis using True by (simp add: d_shape_of_def slice_stop_def)
  next
    case False
    then have room: "(lengths st0 ! i - 1) * dilations st0 ! i < ?T" using start i by auto
    have "int (lengths st0 ! i) - 1 \<le> int (lengths st0 ! i - 1)" by linarith
    then have "(int (lengths st0 ! i) - 1) * int (dilations st0 ! i)
        \<le> int (lengths st0 ! i - 1) * int (dilations st0 ! i)"
      by (intro mult_right_mono) auto
    also have "\<dots> = int ((lengths st0 ! i - 1) * dilations st0 ! i)" by simp
    also have "\<dots> < int ?T" using room by linarith
    finally have "1 \<le> d_shape_of False ?T (lengths st0 ! i) (dilations st0 ! i)"
      by (simp add: d_shape_of_def)
    moreover have "0 < ?T" using room by linarith
    ultimately show ?thesis using False by (auto simp: slice_stop_def)
  qed
  have ds: "\<forall>i<n. up \<or> 0 \<le> d_shape_of False ?T (lengths st0 ! i) (dilations st0 ! i)"
    using dsh by blast
  from generate_loop_total [OF post(1,2) nc ds, of alpha] obtain st where
    loop: "generate_loop X alpha up st0 = Inr st"
    and inv: "loop_inv n X alpha up st0 {..<n} st" by blast
  have sp: "same_params st0 st" and wf: "arrays_wf n X st"
    using inv by (auto simp: loop_inv_def)
  have adm: "admissible X alpha up st0 i" if i: "i < n" for i
  proof -
    have "real (n_channels st0 ! i) * alpha \<le> real (n_channels st0 ! i) * 1"
      using alpha(2) by (intro mult_left_mono) auto
    also have "\<dots> \<le> real (n_features X)" using nc i by simp
    finally show ?thesis using dsh [OF i] ns by (simp add: admissible_def)
  qed
  have 1: "generate_state ext g0 X y n sizes r_seed p_norm p_min p_max alpha up mc prime = Inr st"
    by (simp add: generate_state_def init loop)
  have 2: "mask_sampling st = ones5 2 (length (unique (dilations st))) (n_samples X)
                              (n_features X) (n_timestamps X)"
    using wf by (simp add: arrays_wf_def)
  have 3: "candidates X alpha up i_d i st \<noteq> []"
    if "i < n" "i_d < length (unique (dilations st))" for i i_d
    using candidates_wf [OF wf that(2), of alpha up i] adm [OF that(1)]
      admissible_same_params [OF sp, of X alpha up i] by simp
  have 4: "populated X up st i" if "i < n" for i
    using inv adm [OF that] that by (auto simp: loop_inv_def)
  show ?thesis using 1 2 3 4 by blast
qed

theorem valid_inputs_populate_every_shapelet_witness:
  "init_state ex_ext ex_X 1 [3] 0 0 1 False ex_rng = Inr ex_st0
   \<and> (1::nat) \<le> 1 \<and> 1 \<le> n_features ex_X \<and> (0::real) \<le> 1 \<and> (1::real) \<le> 1
   \<and> 1 \<le> n_samples ex_X
   \<and> (lengths ex_st0 ! 0 - 1) * dilations ex_st0 ! 0 < n_timestamps ex_X
   \<and> generate_state ex_ext ex_rng ex_X [] 1 [3] 0 0 0 0 1 False 1 False = Inr ex_st1
   \<and> mask_sampling ex_st1 = ones5 2 1 1 1 3
   \<and> candidates ex_X 1 False 0 0 ex_st1 \<noteq> []
   \<and> populated ex_X False ex_st1 0"
proof -
  have i: "init_state ex_ext ex_X 1 [3] 0 0 1 False ex_rng = Inr ex_st0"
    using ex_init [of 1] by simp
  have h0: "(lengths ex_st0 ! 0 - 1) * dilations ex_st0 ! 0 < n_timestamps ex_X"
    by (simp add: ex_st0_def ex_X_def)
  then have h: "\<forall>i<1. (if False then 0 else (lengths ex_st0 ! i - 1) * dilations ex_st0 ! i)
             < n_timestamps ex_X"
    by simp
  have f: "1 \<le> n_features ex_X" "1 \<le> n_samples ex_X" by (simp_all add: ex_X_def)
  have m: "(1::nat) \<le> 1" and a0: "(0::real) \<le> 1" and a1: "(1::real) \<le> 1" by simp_all
  from valid_inputs_populate_every_shapelet [OF i m f(1) a0 a1 f(2) h, of "[]" 0 0]
  obtain st where r: "generate_state ex_ext ex_rng ex_X [] 1 [3] 0 0 0 0 1 False 1 False = Inr st"
    and p: "\<forall>i<1. populated ex_X False st i" by blast
  from r have st: "st = ex_st1" unfolding ex_run_1 by simp
  have pop: "populated ex_X False ex_st1 0" using p unfolding st by simp
  have mask: "mask_sampling ex_st1 = ones5 2 1 1 1 3"
    by (simp add: ex_st1_def ex_st0_def ones5_def small)
  have c: "candidates ex_X 1 False 0 0 ex_st1 \<noteq> []" by (simp add: ex_candidates)
  show ?thesis using i m f a0 a1 h0 ex_run_1 mask c pop by blast
qed

text \<open>
  C3. After each successful draw the occupancy structure should mark the drawn region
  unavailable. The source never does: on \<open>ex_X\<close>, with \<open>alpha = 1\<close>, two shapelets of
  length 3 are both drawn and populated from sample 0, channel 0, start position 0, and the
  mask is all true when the generation returns.
\<close>

theorem mask_sampling_unchanged_after_draws:
  "generate_state ex_ext ex_rng ex_X [] 2 [3] 0 0 0 0 1 False 1 False = Inr ex_two1
   \<and> populated ex_X False ex_two1 0 \<and> populated ex_X False ex_two1 1
   \<and> id_samples ex_two1 = [0, 0] \<and> start_positions ex_two1 = [0, 0]
   \<and> channel_ids ex_two1 = [0, 0]
   \<and> mask_sampling ex_two1 = ones5 2 1 1 1 3"
proof -
  have "mask_sampling ex_two1 = ones5 2 1 1 1 3"
    by (simp add: ex_two1_def ex_two0_def ones5_def small)
  moreover have "id_samples ex_two1 = [0, 0] \<and> start_positions ex_two1 = [0, 0]
      \<and> channel_ids ex_two1 = [0, 0]"
    by (simp add: ex_two1_def ex_two0_def)
  ultimately show ?thesis using ex_run_two ex_two_populated by blast
qed

text \<open>
  Once the parameters are drawn, with \<open>max_channels \<le> n_features\<close> and admissible
  lengths of at least 1, the loops return whatever \<open>alpha\<close> is, and every shapelet
  without a candidate keeps the zero values, zero channel ids and zero provenance of the
  initialisation.
\<close>

lemma shapelet_without_candidates_untouched:
  assumes init: "init_state ext X n sizes r_seed p_norm mc prime g0 = Inr st0"
    and mc: "mc \<le> n_features X"
    and sizes: "list_all (\<lambda>L. 1 \<le> L) sizes"
  shows "\<exists>st. generate_state ext g0 X y n sizes r_seed p_norm p_min p_max alpha up mc prime
               = Inr st
    \<and> (\<forall>i<n. \<forall>i_d<length (unique (dilations st)).
          candidates X alpha up i_d i st = [] \<longrightarrow> untouched st i)"
proof -
  note post = init_state_post [OF init]
  have nc: "\<forall>i<n. n_channels st0 ! i \<le> n_features X"
    using post(4) mc by (meson order.trans)
  have ds: "\<forall>i<n. up \<or> 0 \<le> d_shape_of False (n_timestamps X) (lengths st0 ! i)
                              (dilations st0 ! i)"
    using init_state_d_shape(1) [OF init sizes] by force
  from generate_loop_total [OF post(1,2) nc ds, of alpha] obtain st where
    loop: "generate_loop X alpha up st0 = Inr st"
    and inv: "loop_inv n X alpha up st0 {..<n} st" by blast
  have sp: "same_params st0 st" and wf: "arrays_wf n X st"
    using inv by (auto simp: loop_inv_def)
  have 1: "generate_state ext g0 X y n sizes r_seed p_norm p_min p_max alpha up mc prime = Inr st"
    by (simp add: generate_state_def init loop)
  have 2: "untouched st i"
    if "i < n" "i_d < length (unique (dilations st))" "candidates X alpha up i_d i st = []"
    for i i_d
  proof -
    have "\<not> admissible X alpha up st i"
      using candidates_wf [OF wf that(2), of alpha up i] that(3) by simp
    then have "\<not> admissible X alpha up st0 i" by (simp add: admissible_same_params [OF sp])
    then show ?thesis using inv that(1) by (auto simp: loop_inv_def)
  qed
  show ?thesis using 1 2 by blast
qed

text \<open>
  C4. A shapelet without a candidate should be left at zero, without an error, and be
  surfaced as a condition the caller can count. The source does the first two and not
  the third. On \<open>ex_X\<close> with \<open>alpha = 2\<close> the one shapelet has no candidate: the
  generation returns and the shapelet is as the initialisation left it; \<open>mask_return\<close>,
  allocated all true at line 128, is still all true, no statement assigns to it and
  the function does not return it; and the value returned is the value returned with
  \<open>alpha = 1\<close>, where the shapelet has a candidate and is populated.
\<close>

theorem exhausted_shapelet_not_surfaced:
  "generate_state ex_ext ex_rng ex_X [] 1 [3] 0 0 0 0 2 False 1 False = Inr ex_st0
   \<and> candidates ex_X 2 False 0 0 ex_st0 = []
   \<and> untouched ex_st0 0
   \<and> mask_return ex_st0 = [True]
   \<and> M_SL_generate_shapelet ex_ext ex_rng ex_X [] 1 [3] 0 0 0 0 2 False 1 False
     = Inr (shapelets.truncate ex_st0, [0], [0])
   \<and> M_SL_generate_shapelet ex_ext ex_rng ex_X [] 1 [3] 0 0 0 0 2 False 1 False
     = M_SL_generate_shapelet ex_ext ex_rng ex_X [] 1 [3] 0 0 0 0 1 False 1 False
   \<and> generate_state ex_ext ex_rng ex_X [] 1 [3] 0 0 0 0 1 False 1 False = Inr ex_st1
   \<and> candidates ex_X 1 False 0 0 ex_st0 = [(0, 0)]
   \<and> populated ex_X False ex_st1 0"
proof -
  have t: "shapelets.truncate ex_st1 = shapelets.truncate ex_st0"
    "id_samples ex_st1 = [0]" "start_positions ex_st1 = [0]"
    "id_samples ex_st0 = [0]" "start_positions ex_st0 = [0]"
    by (simp_all add: ex_st1_def ex_st0_def shapelets.truncate_def)
  have a: "M_SL_generate_shapelet ex_ext ex_rng ex_X [] 1 [3] 0 0 0 0 2 False 1 False
     = Inr (shapelets.truncate ex_st0, [0], [0])"
    unfolding M_SL_generate_shapelet_def ex_run_2 by (simp add: t)
  have b: "M_SL_generate_shapelet ex_ext ex_rng ex_X [] 1 [3] 0 0 0 0 1 False 1 False
     = Inr (shapelets.truncate ex_st0, [0], [0])"
    unfolding M_SL_generate_shapelet_def ex_run_1 by (simp add: t)
  have m: "mask_return ex_st0 = [True]" by (simp add: ex_st0_def)
  show ?thesis
    using a b m ex_run_2 ex_run_1 ex_candidates(1,2) ex_untouched ex_populated by simp
qed

text \<open>The generation returns whenever the draws of the initialisation and of the loops
  can be made.\<close>

lemma generate_total:
  assumes "n = 0 \<or> sizes \<noteq> []"
    and "list_all (\<lambda>L. 2 \<le> L \<and> L \<le> n_timestamps X) sizes"
    and "1 \<le> mc" and "mc \<le> n_features X"
  shows "\<exists>r. M_SL_generate_shapelet ext g0 X y n sizes r_seed p_norm p_min p_max alpha up mc
               False = Inr r"
proof -
  have "n = 0 \<or> 0 < mc" using assms(3) by simp
  from init_params_total [OF assms(1,2) this] obtain S g where
    "M_SL_init_random_shapelet_params ext n sizes (n_timestamps X) p_norm mc False
       (seed (mt ext) r_seed g0) = Inr (S, g)" by blast
  then obtain st0 where init: "init_state ext X n sizes r_seed p_norm mc False g0 = Inr st0"
    by (simp add: init_state_def)
  note post = init_state_post [OF init]
  have sizes: "list_all (\<lambda>L. 1 \<le> L) sizes"
    using assms(2) by (auto simp: list_all_iff)
  have nc: "\<forall>i<n. n_channels st0 ! i \<le> n_features X"
    using post(4) assms(4) by (meson order.trans)
  have ds: "\<forall>i<n. up \<or> 0 \<le> d_shape_of False (n_timestamps X) (lengths st0 ! i)
                              (dilations st0 ! i)"
    using init_state_d_shape(1) [OF init sizes] by force
  from generate_loop_total [OF post(1,2) nc ds, of alpha] obtain st where
    "generate_loop X alpha up st0 = Inr st" by blast
  then show ?thesis
    by (simp add: M_SL_generate_shapelet_def generate_state_def init)
qed

text \<open>
  C2, as the source has it. \<open>generate\<close> checks nothing before it samples: in the
  unrestricted scheme, when no shapelet is asked for or the length set is not empty, with
  \<open>1 \<le> max_channels \<le> n_features\<close> and every admissible length between 2 and the
  timestamp count, the timestamp count included, it returns a shapelet set for every
  \<open>alpha\<close>, inside \<open>[0, 1]\<close> or not, whatever the seed and the generator.
\<close>

theorem generate_returns_for_every_alpha:
  assumes "n = 0 \<or> sizes \<noteq> []"
    and "list_all (\<lambda>L. 2 \<le> L \<and> L \<le> n_timestamps X) sizes"
    and "1 \<le> mc" and "mc \<le> n_features X"
  shows "\<exists>r. M_SL_generate_shapelet ext g0 X y n sizes r_seed p_norm p_min p_max alpha up mc
               False = Inr r"
  using assms by (rule generate_total)

theorem generate_returns_for_every_alpha_witness:
  "((1::nat) = 0 \<or> [3::nat] \<noteq> []) \<and> list_all (\<lambda>L. 2 \<le> L \<and> L \<le> n_timestamps ex_X) [3]
   \<and> (1::nat) \<le> 1 \<and> 1 \<le> n_features ex_X
   \<and> (\<exists>r. M_SL_generate_shapelet ex_ext ex_rng ex_X [] 1 [3] 0 0 0 0 2 False 1 False = Inr r)"
proof -
  have a: "(1::nat) = 0 \<or> [3::nat] \<noteq> []" by simp
  have b: "list_all (\<lambda>L. 2 \<le> L \<and> L \<le> n_timestamps ex_X) [3]" by (simp add: ex_X_def)
  have c: "(1::nat) \<le> 1" by simp
  have d: "1 \<le> n_features ex_X" by (simp add: ex_X_def)
  from generate_returns_for_every_alpha
         [OF a b c d, where ext = ex_ext and ?g0.0 = ex_rng and y = "[]" and r_seed = 0
            and p_norm = 0 and p_min = 0 and p_max = 0 and alpha = 2 and up = False]
  show ?thesis using a b c d by blast
qed

text \<open>
  C2, as stated, fails: with an admissible length equal to the timestamp count and
  \<open>alpha = -1\<close>, \<open>generate\<close> raises nothing and returns a shapelet set, for every seed
  and every stream of the generator.
\<close>

theorem generate_does_not_validate:
  "\<forall>ext g0 r_seed. \<exists>r.
     M_SL_generate_shapelet ext g0 ex_X [] 1 [3] r_seed 0 0 0 (- 1) False 1 False = Inr r
     \<and> n_timestamps ex_X \<le> 3 \<and> (- 1 :: real) < 0"
proof (intro allI)
  fix ext g0 r_seed
  have a: "(1::nat) = 0 \<or> [3::nat] \<noteq> []" by simp
  have b: "list_all (\<lambda>L. 2 \<le> L \<and> L \<le> n_timestamps ex_X) [3]" by (simp add: ex_X_def)
  have c: "(1::nat) \<le> 1" by simp
  have d: "1 \<le> n_features ex_X" by (simp add: ex_X_def)
  from generate_total [OF a b c d, of ext g0 "[]" r_seed 0 0 0 "- 1" False]
  show "\<exists>r. M_SL_generate_shapelet ext g0 ex_X [] 1 [3] r_seed 0 0 0 (- 1) False 1 False = Inr r
     \<and> n_timestamps ex_X \<le> 3 \<and> (- 1 :: real) < 0"
    by (simp add: ex_X_def)
qed

section \<open>The offset arrays\<close>

text \<open>
  C9. In the state of a generation that returns, the offset arrays are prefix sums: for
  every shapelet \<open>i\<close>, \<open>a1[i+1] - a1[i] = n_channels[i] * lengths[i]\<close> and
  \<open>a2[i+1] - a2[i] = n_channels[i]\<close>; the slices they cut lie inside the two buffers; and
  the offset arrays that \<open>apply\<close> computes from the returned shapelet set are the same
  arrays.
\<close>

theorem offsets_are_prefix_sums:
  assumes run: "generate_state ext g0 X y n sizes r_seed p_norm p_min p_max alpha up mc prime
                  = Inr st"
    and i: "i < n"
  shows "a1 st ! (i + 1) - a1 st ! i = n_channels st ! i * lengths st ! i
    \<and> a2 st ! (i + 1) - a2 st ! i = n_channels st ! i
    \<and> a1 st ! i \<le> a1 st ! (i + 1) \<and> a1 st ! (i + 1) \<le> length (shp_values st)
    \<and> a2 st ! i \<le> a2 st ! (i + 1) \<and> a2 st ! (i + 1) \<le> length (channel_ids st)
    \<and> apply_offsets (shapelets.truncate st) = Inr (a1 st, a2 st)"
proof -
  from generate_state_inv [OF run] obtain st0 where
    inv: "loop_inv n X alpha up st0 {..<n} st" by blast
  then have wf: "arrays_wf n X st" by (simp add: loop_inv_def)
  note o = wf_offsets [OF wf i]
  have len: "length (n_channels st) = length (lengths st)"
    using wf by (simp add: arrays_wf_def)
  have "apply_offsets (shapelets.truncate st)
      = Inr (offsets (map2 (*) (n_channels st) (lengths st)), offsets (n_channels st))"
    by (simp add: apply_offsets_def broadcast2_def len shapelets.truncate_def)
  then have "apply_offsets (shapelets.truncate st) = Inr (a1 st, a2 st)"
    using wf by (simp add: arrays_wf_def)
  then show ?thesis using o by simp
qed

theorem offsets_are_prefix_sums_witness:
  "generate_state ex_ext ex_rng ex_X [] 1 [3] 0 0 0 0 1 False 1 False = Inr ex_st1
   \<and> (0::nat) < 1
   \<and> a1 ex_st1 ! (0 + 1) - a1 ex_st1 ! 0 = n_channels ex_st1 ! 0 * lengths ex_st1 ! 0
   \<and> a2 ex_st1 ! (0 + 1) - a2 ex_st1 ! 0 = n_channels ex_st1 ! 0
   \<and> apply_offsets (shapelets.truncate ex_st1) = Inr (a1 ex_st1, a2 ex_st1)"
proof -
  have b: "(0::nat) < 1" by simp
  from offsets_are_prefix_sums [OF ex_run_1 b]
  show ?thesis using ex_run_1 by simp
qed

section \<open>The store during the application\<close>

lemma kept_refl: "b \<le> next_free h \<Longrightarrow> kept b h h"
  by (simp add: kept_def)

lemma kept_trans: "kept b h h1 \<Longrightarrow> kept b h1 h2 \<Longrightarrow> kept b h h2"
  by (simp add: kept_def)

lemma alloc_kept:
  assumes "alloc a h = (p, h')" "b \<le> next_free h"
  shows "kept b h h'" and "p = next_free h" and "next_free h' = Suc (next_free h)"
    and "store h' p = Some a"
  using assms by (auto simp: alloc_def kept_def)

lemma write_window_kept:
  assumes "write_window h sa i j w = Inr h'" "b \<le> sa" "b \<le> next_free h"
  shows "kept b h h'"
  using assms
  by (auto simp: write_window_def kept_def bind_e_eq_Inr split: if_splits)

lemma normalize_window_kept:
  assumes "normalize_window sa i j h = Inr h'" "b \<le> sa" "b \<le> next_free h"
  shows "kept b h h'"
  using assms
  by (auto simp: normalize_window_def bind_e_eq_Inr dest: write_window_kept)

lemma efold_kept:
  assumes "efold f xs h = Inr h'" "b \<le> next_free h"
    and "\<And>x t t'. x \<in> set xs \<Longrightarrow> b \<le> next_free t \<Longrightarrow> f x t = Inr t' \<Longrightarrow> kept b t t'"
  shows "kept b h h'"
proof -
  have "kept b h h'"
    using assms(1)
  proof (rule efold_inv [where P = "\<lambda>t. kept b h t"])
    show "kept b h h" using assms(2) by (rule kept_refl)
  next
    fix x t t' assume x: "x \<in> set xs" and k: "kept b h t" and f: "f x t = Inr t'"
    have "b \<le> next_free t" using k by (simp add: kept_def)
    from assms(3) [OF x this f] k show "kept b h t'" by (blast intro: kept_trans)
  qed
  then show ?thesis .
qed

lemma normalize_strides_kept:
  assumes "normalize_strides sa h = Inr h'" "b \<le> sa" "b \<le> next_free h"
  shows "kept b h h'"
proof -
  from assms(1) obtain c :: "real list list list" where
    run: "efold (\<lambda>i. efold (normalize_window sa i) [0..<length (c ! i)]) [0..<length c] h = Inr h'"
    by (auto simp: normalize_strides_def bind_e_eq_Inr)
  show ?thesis
    using run assms(3)
  proof (rule efold_kept)
    fix i t t'
    assume bt: "b \<le> next_free t"
      and r: "efold (normalize_window sa i) [0..<length (c ! i)] t = Inr t'"
    from r bt show "kept b t t'"
      by (rule efold_kept) (rule normalize_window_kept [OF _ assms(2)])
  qed
qed

lemma apply_group_kept:
  assumes "apply_group kern xa refs up params_shp idx_shp n_shp_params o1 o2 i_sample g (X0, h)
             = Inr (X1, h')"
    and "b \<le> next_free h"
  shows "kept b h h'"
proof -
  from assms(1) obtain L d sa h1 where
    gs: "generate_strides_2D h xa i_sample L d up = Inr (sa, h1)"
    and rest: "h' = h1 \<or> normalize_strides sa h1 = Inr h'"
    unfolding apply_group_def
    by (auto simp: bind_e_eq_Inr split: if_splits)
  from gs obtain a where al: "alloc a h = (sa, h1)"
    by (auto simp: generate_strides_2D_def bind_e_eq_Inr split: if_splits)
  note ak = alloc_kept [OF al assms(2)]
  have "b \<le> sa" using ak(2) assms(2) by simp
  moreover have "b \<le> next_free h1" using ak(3) assms(2) by simp
  ultimately have "kept b h1 h'"
    using rest by (auto intro: kept_refl normalize_strides_kept)
  with ak(1) show ?thesis by (rule kept_trans)
qed

lemma kept_get_tensor: "kept b h h' \<Longrightarrow> xa < b \<Longrightarrow> get_tensor h' xa = get_tensor h xa"
  by (simp add: kept_def get_tensor_def)

lemma kept_load_shapelets:
  "kept b h h' \<Longrightarrow> refs_below b refs \<Longrightarrow> load_shapelets h' refs = load_shapelets h refs"
  by (simp add: kept_def refs_below_def load_shapelets_def get_floats_def get_ints_def
        get_bools_def)

lemma write_features_shape:
  assumes "write_features X i_sample i_shp fs = Inr X'" "has_shape m k X"
  shows "has_shape m k X'"
proof -
  obtain f1 f2 f3 where fs: "fs = (f1, f2, f3)" by (cases fs)
  from assms(1) obtain row' where i: "i_sample < length X"
    and s: "set_slice (X ! i_sample) (3 * i_shp) (3 * i_shp + 3) [f1, f2, f3] = Inr row'"
    and X': "X' = X[i_sample := row']"
    by (auto simp: write_features_def fs nth_e_def bind_e_eq_Inr split: if_splits)
  have "length row' = length (X ! i_sample)" using s by (rule set_slice_length)
  moreover have "length (X ! i_sample) = k" using assms(2) i by (simp add: has_shape_def list_all_length)
  ultimately have "length row' = k" by simp
  then show ?thesis
    using assms(2) i by (auto simp: has_shape_def X' list_all_length nth_list_update)
qed

lemma apply_shapelet_shape:
  assumes "apply_shapelet kern h refs sa o1 o2 L i_sample i_shp X = Inr X'" "has_shape m k X"
  shows "has_shape m k X'"
  using assms unfolding apply_shapelet_def
  by (auto simp: bind_e_eq_Inr elim: write_features_shape)

lemma apply_shapelets_shape:
  assumes "efold (apply_shapelet kern h refs sa o1 o2 L i_sample) idx X = Inr X'"
    "has_shape m k X"
  shows "has_shape m k X'"
  using assms(1,2) by (rule efold_inv) (rule apply_shapelet_shape)

lemma apply_group_shape:
  assumes "apply_group kern xa refs up params_shp idx_shp n_shp_params o1 o2 i_sample g (X0, h)
             = Inr (X1, h')"
    and "has_shape m k X0"
  shows "has_shape m k X1"
proof -
  from assms(1) have "\<exists>L sa h1 h2 idx1 idx2 Xa.
      efold (apply_shapelet kern h1 refs sa o1 o2 L i_sample) idx1 X0 = Inr Xa
    \<and> (X1 = Xa \<or> efold (apply_shapelet kern h2 refs sa o1 o2 L i_sample) idx2 Xa = Inr X1)"
    unfolding apply_group_def
    by (auto simp: bind_e_eq_Inr split: if_splits) blast+
  then obtain L sa h1 h2 idx1 idx2 Xa where
    a: "efold (apply_shapelet kern h1 refs sa o1 o2 L i_sample) idx1 X0 = Inr Xa"
    and b: "X1 = Xa \<or> efold (apply_shapelet kern h2 refs sa o1 o2 L i_sample) idx2 Xa = Inr X1"
    by blast
  have "has_shape m k Xa" using a assms(2) by (rule apply_shapelets_shape)
  then show ?thesis using b by (auto dest: apply_shapelets_shape)
qed

lemma apply_loops_inv:
  assumes "efold (\<lambda>i_sample. efold (apply_group kern xa refs up params_shp idx_shp n_shp_params
                         o1 o2 i_sample) gs) ss (X0, h) = Inr (X1, h')"
    and "has_shape m k X0"
  shows "has_shape m k X1 \<and> kept (next_free h) h h'"
proof -
  let ?P = "\<lambda>st. has_shape m k (fst st) \<and> kept (next_free h) h (snd st)"
  have step: "?P t'" if "?P t"
    "apply_group kern xa refs up params_shp idx_shp n_shp_params o1 o2 i_sample g t = Inr t'"
    for i_sample g t t'
  proof -
    obtain Xa ha where t: "t = (Xa, ha)" by (cases t)
    obtain Xb hb where t': "t' = (Xb, hb)" by (cases t')
    have le: "next_free h \<le> next_free ha" using that(1) by (simp add: t kept_def)
    have "has_shape m k Xb" using that by (auto simp: t t' dest: apply_group_shape)
    moreover have "kept (next_free h) ha hb"
      using that(2) le unfolding t t' by (rule apply_group_kept)
    then have "kept (next_free h) h hb" using that(1) by (auto simp: t intro: kept_trans)
    ultimately show ?thesis by (simp add: t')
  qed
  have inner: "?P t'" if "?P t"
    "efold (apply_group kern xa refs up params_shp idx_shp n_shp_params o1 o2 i_sample) gs t
       = Inr t'" for i_sample t t'
    using that(2,1) by (rule efold_inv) (rule step)
  have "?P (X1, h')"
    using assms(1)
  proof (rule efold_inv)
    show "?P (X0, h)" using assms(2) by (simp add: kept_refl)
  next
    fix x t t'
    assume "?P t" and "efold (apply_group kern xa refs up params_shp idx_shp n_shp_params
                         o1 o2 x) gs t = Inr t'"
    then show "?P t'" by (rule inner)
  qed
  then show ?thesis by simp
qed

lemma apply_ex:
  assumes "M_SL_apply_all_shapelets kern h xa refs up = Inr r"
  shows "\<exists>S X o1 o2 a3 idx_shp counts.
      load_shapelets h refs = Inr S \<and> get_tensor h xa = Inr X \<and>
      apply_offsets S = Inr (o1, o2) \<and>
      efold (index_group (lengths S) (dilations S) (combinations_1d (lengths S) (dilations S)))
        [0..<length (combinations_1d (lengths S) (dilations S))]
        (0, replicate (length (lengths S)) 0,
         replicate (length (combinations_1d (lengths S) (dilations S)) + 1) 0)
        = Inr (a3, idx_shp, counts) \<and>
      efold (\<lambda>i_sample.
                efold (apply_group kern xa refs up (combinations_1d (lengths S) (dilations S))
                         idx_shp (cumsum counts) o1 o2 i_sample)
                  [0..<length (cumsum counts) - 1])
         [0..<n_samples X]
         (replicate (n_samples X) (replicate (3 * length (lengths S)) 0), h) = Inr r"
  using assms unfolding M_SL_apply_all_shapelets_def
  by (auto simp: bind_e_eq_Inr Let_def)

lemma apply_post:
  assumes "M_SL_apply_all_shapelets kern h xa refs up = Inr (X_new, h')"
  shows "\<exists>S X. load_shapelets h refs = Inr S \<and> get_tensor h xa = Inr X
      \<and> has_shape (n_samples X) (3 * length (lengths S)) X_new
      \<and> kept (next_free h) h h'"
proof -
  from apply_ex [OF assms] obtain S X o1 o2 idx_shp counts where
    S: "load_shapelets h refs = Inr S" and X: "get_tensor h xa = Inr X"
    and run: "efold (\<lambda>i_sample.
                efold (apply_group kern xa refs up (combinations_1d (lengths S) (dilations S))
                         idx_shp (cumsum counts) o1 o2 i_sample)
                  [0..<length (cumsum counts) - 1])
         [0..<n_samples X]
         (replicate (n_samples X) (replicate (3 * length (lengths S)) 0), h) = Inr (X_new, h')"
    by blast
  have "has_shape (n_samples X) (3 * length (lengths S))
          (replicate (n_samples X) (replicate (3 * length (lengths S)) 0))"
    by (simp add: has_shape_def list_all_length)
  from apply_loops_inv [OF run this] S X show ?thesis by blast
qed

lemmas apply_eval = M_SL_apply_all_shapelets_def load_shapelets_def get_floats_def get_ints_def
  get_bools_def get_tensor_def get_cube_def ex_heap_def ex_refs_def ex_kernel_def ex_X_def
  combinations_1d_def apply_offsets_def broadcast2_def offsets_def cumsum_def index_group_def
  nth_e_def set_slice_def apply_group_def generate_strides_2D_def d_shape_of_def alloc_def
  window_def with_flag_def slice_def apply_shapelet_def reshape2_def write_features_def
  normalize_strides_def normalize_window_def write_window_def z_normalize_def mean_def std_def
  Let_def

lemma ex_apply:
  "M_SL_apply_all_shapelets ex_kernel ex_heap 0 ex_refs False = Inr ([[1, 2, 3]], ex_heap')"
  by (simp add: apply_eval ex_heap'_def small)

lemma ex_refs_below: "refs_below (next_free ex_heap) ex_refs"
  by (simp add: refs_below_def ex_heap_def ex_refs_def)

section \<open>The inputs of the application\<close>

text \<open>
  C1. A call of \<open>M_SL_apply_all_shapelets\<close> that returns leaves the series tensor and the
  seven arrays of the shapelet set as they were: every address in use before the call
  holds afterwards the array it held before. The in-place normalization of the windows
  (lines 269 to 275) writes to the array of windows that the call has got from
  \<open>generate_strides_2D\<close>, an array of its own, and the features go to \<open>X_new\<close>.
\<close>

theorem apply_leaves_inputs_unchanged:
  assumes run: "M_SL_apply_all_shapelets kern h xa refs up = Inr (X_new, h')"
    and xa: "xa < next_free h"
    and refs: "refs_below (next_free h) refs"
  shows "get_tensor h' xa = get_tensor h xa
    \<and> load_shapelets h' refs = load_shapelets h refs
    \<and> (\<forall>a<next_free h. store h' a = store h a)"
proof -
  from apply_post [OF run] have k: "kept (next_free h) h h'" by blast
  have "get_tensor h' xa = get_tensor h xa" using k xa by (rule kept_get_tensor)
  moreover have "load_shapelets h' refs = load_shapelets h refs"
    using k refs by (rule kept_load_shapelets)
  moreover have "\<forall>a<next_free h. store h' a = store h a" using k by (simp add: kept_def)
  ultimately show ?thesis by simp
qed

theorem apply_leaves_inputs_unchanged_witness:
  "M_SL_apply_all_shapelets ex_kernel ex_heap 0 ex_refs False = Inr ([[1, 2, 3]], ex_heap')
   \<and> 0 < next_free ex_heap
   \<and> refs_below (next_free ex_heap) ex_refs
   \<and> store ex_heap' (next_free ex_heap) = Some (Cube [[[0, 0, 0]]])
   \<and> get_tensor ex_heap' 0 = get_tensor ex_heap 0
   \<and> get_tensor ex_heap 0 = Inr ex_X
   \<and> load_shapelets ex_heap' ex_refs = load_shapelets ex_heap ex_refs"
proof -
  have a: "0 < next_free ex_heap" by (simp add: ex_heap_def)
  have c: "store ex_heap' (next_free ex_heap) = Some (Cube [[[0, 0, 0]]])"
    by (simp add: ex_heap'_def ex_heap_def)
  have d: "get_tensor ex_heap 0 = Inr ex_X" by (simp add: get_tensor_def ex_heap_def)
  from apply_leaves_inputs_unchanged [OF ex_apply a ex_refs_below]
  show ?thesis using ex_apply a ex_refs_below c d by simp
qed

section \<open>The generation on the threads of the parallel target\<close>

lemma on_thread_None: "on_thread None body = body"
  by (rule ext) (simp add: on_thread_def)

lemma generate_loop_parallel_calling_thread:
  "generate_loop_parallel (\<lambda>_. None) X alpha up st = generate_loop X alpha up st"
  by (simp add: generate_loop_parallel_def generate_loop_def on_thread_None)

lemma generate_parallel_calling_thread:
  "M_SL_generate_shapelet_parallel (\<lambda>_. None) ext g0 X y n sizes r_seed p_norm p_min p_max
     alpha up mc prime
   = M_SL_generate_shapelet ext g0 X y n sizes r_seed p_norm p_min p_max alpha up mc prime"
proof (cases "init_state ext X n sizes r_seed p_norm mc prime g0")
  case (Inl e)
  then show ?thesis
    by (simp add: M_SL_generate_shapelet_parallel_def M_SL_generate_shapelet_def
          generate_state_def)
next
  case (Inr st0)
  then show ?thesis
    by (simp add: M_SL_generate_shapelet_parallel_def M_SL_generate_shapelet_def
          generate_state_def generate_loop_parallel_calling_thread)
qed

lemma ex_init_par: "init_state ex_ext ex_X2 1 [3] 0 0 1 False ex_rng = Inr ex_par0"
  by (simp add: init_eval ex_X2_def ex_par0_def small)

lemmas loop_par_eval = generate_loop_parallel_def on_thread_def unique_def where_eq_def
  shapelet_step_def candidates_def
  d_shape_of_def i_mask_def slice_stop_def sample_shapelet_def choice_def rand_below_def next_raw_def
  choice_no_replace_def channel_row_def get_subsequence_def set_slice_def Let_def ex_X2_def

lemma ex_loop_par_0:
  "generate_loop_parallel (\<lambda>_. Some \<lparr>stream = (\<lambda>_. 0), pos = 0\<rparr>) ex_X2 1 False ex_par0
     = Inr ex_par0"
  by (simp add: loop_par_eval ex_par0_def small)

lemma ex_loop_par_1:
  "generate_loop_parallel (\<lambda>_. Some \<lparr>stream = (\<lambda>_. 1), pos = 0\<rparr>) ex_X2 1 False ex_par0
     = Inr (ex_par0\<lparr>shp_values := [1, 1, 1], id_samples := [1]\<rparr>)"
  by (simp add: loop_par_eval ex_par0_def small)


text \<open>
  C6. Two calls with the same seed and the same inputs should return the same buffers and
  the same provenance arrays. With numba's parallel target they need not: the draws of
  lines 148 to 155 are made inside the \<open>prange\<close>, with the generator of the thread that
  runs the iteration, and \<open>seed(r_seed)\<close> of line 115 has set the generator of the calling
  thread only. On \<open>ex_X2\<close>, with seed 0 both times, the call whose thread draws the raw
  number 0 takes its shapelet from sample 0 and the call whose thread draws the raw number
  1 takes it from sample 1: the values and \<open>id_samples\<close> differ.
\<close>

theorem parallel_generation_not_reproducible:
  "M_SL_generate_shapelet_parallel (\<lambda>_. Some \<lparr>stream = (\<lambda>_. 0), pos = 0\<rparr>)
       ex_ext ex_rng ex_X2 [] 1 [3] 0 0 0 0 1 False 1 False
     = Inr (shapelets.truncate ex_par0, [0], [0])
   \<and> M_SL_generate_shapelet_parallel (\<lambda>_. Some \<lparr>stream = (\<lambda>_. 1), pos = 0\<rparr>)
       ex_ext ex_rng ex_X2 [] 1 [3] 0 0 0 0 1 False 1 False
     = Inr (shapelets.truncate (ex_par0\<lparr>shp_values := [1, 1, 1]\<rparr>), [1], [0])
   \<and> shp_values (shapelets.truncate ex_par0) = [0, 0, 0]
   \<and> shp_values (shapelets.truncate (ex_par0\<lparr>shp_values := [1, 1, 1]\<rparr>)) = [1, 1, 1]"
proof -
  have a: "M_SL_generate_shapelet_parallel (\<lambda>_. Some \<lparr>stream = (\<lambda>_. 0), pos = 0\<rparr>)
       ex_ext ex_rng ex_X2 [] 1 [3] 0 0 0 0 1 False 1 False
     = Inr (shapelets.truncate ex_par0, [0], [0])"
    unfolding M_SL_generate_shapelet_parallel_def ex_init_par bind_e_Inr ex_loop_par_0
    by (simp add: ex_par0_def)
  have b: "M_SL_generate_shapelet_parallel (\<lambda>_. Some \<lparr>stream = (\<lambda>_. 1), pos = 0\<rparr>)
       ex_ext ex_rng ex_X2 [] 1 [3] 0 0 0 0 1 False 1 False
     = Inr (shapelets.truncate (ex_par0\<lparr>shp_values := [1, 1, 1]\<rparr>), [1], [0])"
    unfolding M_SL_generate_shapelet_parallel_def ex_init_par bind_e_Inr ex_loop_par_1
    by (simp add: ex_par0_def shapelets.truncate_def)
  have c: "shp_values (shapelets.truncate ex_par0) = [0, 0, 0]"
    "shp_values (shapelets.truncate (ex_par0\<lparr>shp_values := [1, 1, 1]\<rparr>)) = [1, 1, 1]"
    by (simp_all add: ex_par0_def shapelets.truncate_def)
  show ?thesis using a b c by simp
qed

section \<open>The application returns\<close>

lemma efold_upt_total:
  assumes "P i s" and "i \<le> m"
    and "\<And>k t. i \<le> k \<Longrightarrow> k < m \<Longrightarrow> P k t \<Longrightarrow> \<exists>t'. f k t = Inr t' \<and> P (Suc k) t'"
  shows "\<exists>s'. efold f [i..<m] s = Inr s' \<and> P m s'"
  using assms
proof (induction "m - i" arbitrary: i s)
  case 0
  then show ?case by simp
next
  case (Suc d)
  then have lt: "i < m" by simp
  from Suc.prems(3) [OF le_refl lt Suc.prems(1)] obtain t where t: "f i s = Inr t" "P (Suc i) t"
    by blast
  have d: "d = m - Suc i" using Suc.hyps(2) by simp
  have "\<exists>s'. efold f [Suc i..<m] t = Inr s' \<and> P m s'"
  proof (rule Suc.hyps(1) [OF d t(2)])
    show "Suc i \<le> m" using lt by simp
  next
    fix k u assume "Suc i \<le> k" "k < m" "P k u"
    then show "\<exists>t'. f k u = Inr t' \<and> P (Suc k) t'" using Suc.prems(3) [of k u] by simp
  qed
  then show ?case using t(1) lt by (simp add: upt_conv_Cons)
qed

lemma emap_total:
  "(\<And>x. x \<in> set xs \<Longrightarrow> \<exists>y. f x = Inr y) \<Longrightarrow> \<exists>ys. emap f xs = Inr ys"
proof (induction xs)
  case Nil
  then show ?case by simp
next
  case (Cons x xs)
  from Cons.prems [of x] obtain y where y: "f x = Inr y" by auto
  from Cons.IH Cons.prems obtain ys where "emap f xs = Inr ys" by auto
  then show ?case using y by simp
qed

lemma set_slice_subset: "set (slice xs a b) \<subseteq> set xs"
  unfolding slice_def by (meson set_take_subset set_drop_subset subset_trans)

lemma length_cumsum [simp]: "length (cumsum xs) = length xs"
  by (simp add: cumsum_def)

lemma cumsum_nth: "i < length xs \<Longrightarrow> cumsum xs ! i = sum_list (take (Suc i) xs)"
  by (simp add: cumsum_def cumsum_from_nth)

lemma group_sizes_le:
  "distinct ps \<Longrightarrow> sum_list (map (\<lambda>p. length (filter (\<lambda>k. f k = p) js)) ps) \<le> length js"
proof (induction ps arbitrary: js)
  case Nil
  then show ?case by simp
next
  case (Cons p ps)
  define js' where "js' = filter (\<lambda>k. f k \<noteq> p) js"
  have e: "map (\<lambda>q. length (filter (\<lambda>k. f k = q) js)) ps
      = map (\<lambda>q. length (filter (\<lambda>k. f k = q) js')) ps"
  proof (rule map_cong [OF refl])
    fix q assume "q \<in> set ps"
    then have "q \<noteq> p" using Cons.prems by auto
    then have "filter (\<lambda>k. f k = q) js' = filter (\<lambda>k. f k = q) js"
      unfolding js'_def by (auto intro: filter_cong)
    then show "length (filter (\<lambda>k. f k = q) js) = length (filter (\<lambda>k. f k = q) js')" by simp
  qed
  have ih: "sum_list (map (\<lambda>q. length (filter (\<lambda>k. f k = q) js')) ps) \<le> length js'"
    using Cons.prems by (intro Cons.IH) simp
  have c: "length (filter (\<lambda>k. f k = p) js) + length js' = length js"
    unfolding js'_def by (rule sum_length_filter_compl)
  have "sum_list (map (\<lambda>q. length (filter (\<lambda>k. f k = q) js)) (p # ps))
      = length (filter (\<lambda>k. f k = p) js)
        + sum_list (map (\<lambda>q. length (filter (\<lambda>k. f k = q) js)) ps)"
    by simp
  also have "\<dots> = length (filter (\<lambda>k. f k = p) js)
        + sum_list (map (\<lambda>q. length (filter (\<lambda>k. f k = q) js')) ps)"
    by (simp only: e)
  also have "\<dots> \<le> length (filter (\<lambda>k. f k = p) js) + length js'"
    using ih by (rule add_left_mono)
  also have "\<dots> = length js" by (rule c)
  finally show ?case .
qed

lemma group_of_bound:
  assumes "distinct ps"
  shows "sum_list (map (\<lambda>p. length (group_of ls ds p)) ps) \<le> length ls"
  using group_sizes_le [OF assms, of "\<lambda>k. (ls ! k, ds ! k)" "[0..<length ls]"]
  by (simp add: group_of_def)

lemma group_of_mem:
  "k \<in> set (group_of ls ds p) \<Longrightarrow> k < length ls \<and> (ls ! k, ds ! k) = p"
  by (auto simp: group_of_def)

lemma hit_group:
  assumes "length ds = length ls"
  shows "filter (\<lambda>k. map2 (\<and>) (map (\<lambda>l. l = L) ls) (map (\<lambda>x. x = d) ds) ! k)
           [0..<length (map2 (\<and>) (map (\<lambda>l. l = L) ls) (map (\<lambda>x. x = d) ds))]
         = group_of ls ds (L, d)"
  unfolding group_of_def using assms by (auto intro!: filter_cong)


lemma index_group_step:
  assumes len: "length ds = length ls"
    and k: "k < length params"
    and a3: "a3 + length (group_of ls ds (params ! k)) \<le> length idx"
    and cn: "k + 1 < length counts"
  shows "index_group ls ds params k (a3, idx, counts)
     = Inr (a3 + length (group_of ls ds (params ! k)),
            take a3 idx @ group_of ls ds (params ! k)
              @ drop (a3 + length (group_of ls ds (params ! k))) idx,
            counts[k + 1 := length (group_of ls ds (params ! k))])"
proof -
  obtain L d where p: "params ! k = (L, d)" by (cases "params ! k")
  let ?hit = "map2 (\<and>) (map (\<lambda>l. l = L) ls) (map (\<lambda>x. x = d) ds)"
  have b: "broadcast2 (\<and>) (map (\<lambda>l. l = L) ls) (map (\<lambda>x. x = d) ds) = Inr ?hit"
    by (simp add: broadcast2_def len)
  have g: "filter (\<lambda>k. ?hit ! k) [0..<length ?hit] = group_of ls ds (L, d)"
    by (rule hit_group [OF len])
  have s: "set_slice idx a3 (a3 + length (group_of ls ds (L, d))) (group_of ls ds (L, d))
      = Inr (take a3 idx @ group_of ls ds (L, d)
              @ drop (a3 + length (group_of ls ds (L, d))) idx)"
    using a3 p by (intro set_slice_fit) simp_all
  show ?thesis
    unfolding index_group_def
    by (simp only: prod.case nth_e_def k if_True bind_e_Inr p b Let_def g s cn)
qed

lemma cumsum_counts: "cumsum (0 # xs) = offsets xs"
  by (simp add: cumsum_def offsets_def)

lemma index_loop_total:
  assumes len: "length ds = length ls" and dist: "distinct params"
  shows "\<exists>a3 idx counts.
      efold (index_group ls ds params) [0..<length params]
        (0, replicate (length ls) 0, replicate (length params + 1) 0) = Inr (a3, idx, counts)
    \<and> cumsum counts = offsets (map (\<lambda>p. length (group_of ls ds p)) params)
    \<and> (\<forall>j<length params.
          slice idx (offsets (map (\<lambda>p. length (group_of ls ds p)) params) ! j)
            (offsets (map (\<lambda>p. length (group_of ls ds p)) params) ! Suc j)
          = group_of ls ds (params ! j))"
proof -
  define sizes where "sizes = map (\<lambda>p. length (group_of ls ds p)) params"
  define n where "n = length ls"
  define m where "m = length params"
  define A where "A = (\<lambda>k. offsets sizes ! k)"
  define P where "P = (\<lambda>k (st :: nat \<times> nat list \<times> nat list).
     fst st = A k \<and> length (fst (snd st)) = n \<and> length (snd (snd st)) = Suc m \<and>
     take (Suc k) (snd (snd st)) = 0 # take k sizes \<and>
     (\<forall>j<k. slice (fst (snd st)) (A j) (A (Suc j)) = group_of ls ds (params ! j)))"
  have ls: "length sizes = m" by (simp add: sizes_def m_def)
  have total: "A m \<le> n"
    unfolding A_def ls [symmetric] offsets_last sizes_def n_def
    using dist by (rule group_of_bound)
  have mono: "A i \<le> A j" if "i \<le> j" "j \<le> m" for i j
    unfolding A_def using that ls by (intro offsets_mono) simp_all
  have ASuc: "A (Suc k) = A k + length (group_of ls ds (params ! k))" if "k < m" for k
    unfolding A_def using that ls by (simp add: offsets_Suc sizes_def m_def)
  have init: "P 0 (0, replicate (length ls) 0, replicate (length params + 1) 0)"
    by (simp add: P_def A_def offsets_def n_def m_def)
  have step: "\<exists>t'. index_group ls ds params k t = Inr t' \<and> P (Suc k) t'"
    if k: "k < m" and Pk: "P k t" for k t
  proof -
    obtain a3 idx counts where t: "t = (a3, idx, counts)" by (cases t)
    let ?G = "group_of ls ds (params ! k)"
    from Pk have a3: "a3 = A k" and li: "length idx = n" and lc: "length counts = Suc m"
      and tk: "take (Suc k) counts = 0 # take k sizes"
      and sl: "\<forall>j<k. slice idx (A j) (A (Suc j)) = group_of ls ds (params ! j)"
      by (simp_all add: P_def t)
    have le: "A (Suc k) \<le> n" using mono [of "Suc k" m] total k by simp
    have fit: "a3 + length ?G \<le> length idx" using le ASuc [OF k] a3 li by simp
    have cn: "k + 1 < length counts" using lc k by simp
    have km: "k < length params" using k by (simp add: m_def)
    note r = index_group_step [OF len km fit cn]
    let ?idx' = "take a3 idx @ ?G @ drop (a3 + length ?G) idx"
    let ?counts' = "counts[k + 1 := length ?G]"
    have ab: "A k \<le> A (Suc k)" using mono [of k "Suc k"] k by simp
    have b: "A (Suc k) \<le> length idx" using le li by simp
    have lv: "length ?G = A (Suc k) - A k" using ASuc [OF k] by simp
    have eq: "?idx' = take (A k) idx @ ?G @ drop (A (Suc k)) idx"
      using ASuc [OF k] a3 by simp
    have 1: "length ?idx' = n" using fit li by simp
    have 2: "length ?counts' = Suc m" using lc by simp
    have "take (Suc (Suc k)) ?counts' = take (Suc k) ?counts' @ [?counts' ! Suc k]"
      using lc k by (intro take_Suc_conv_app_nth) simp
    also have "take (Suc k) ?counts' = take (Suc k) counts" by simp
    also have "?counts' ! Suc k = length ?G" using lc k by simp
    also have "take (Suc k) counts @ [length ?G] = 0 # take (Suc k) sizes"
      using tk k ls by (simp add: take_Suc_conv_app_nth sizes_def m_def)
    finally have 3: "take (Suc (Suc k)) ?counts' = 0 # take (Suc k) sizes" .
    have 4: "slice ?idx' (A j) (A (Suc j)) = group_of ls ds (params ! j)" if j: "j < Suc k" for j
    proof (cases "j = k")
      case True
      show ?thesis unfolding eq True using ab b lv by (rule slice_replaced_same)
    next
      case False
      then have jk: "j < k" using j by simp
      have "A (Suc j) \<le> A k" using jk k by (intro mono) simp_all
      with ab b lv have "slice (take (A k) idx @ ?G @ drop (A (Suc k)) idx) (A j) (A (Suc j))
          = slice idx (A j) (A (Suc j))"
        by (rule slice_replaced_before)
      then show ?thesis unfolding eq using sl jk by simp
    qed
    have z0: "a3 + length ?G = A (Suc k)" using ASuc [OF k] a3 by simp
    have s4: "\<forall>j<Suc k. slice ?idx' (A j) (A (Suc j)) = group_of ls ds (params ! j)"
      by (intro allI impI) (rule 4)
    have "P (Suc k) (a3 + length ?G, ?idx', ?counts')"
      unfolding P_def fst_conv snd_conv by (intro conjI z0 1 2 3 s4)
    then show ?thesis unfolding t r by (intro exI conjI) (rule refl)
  qed
  have "\<exists>s'. efold (index_group ls ds params) [0..<m]
            (0, replicate (length ls) 0, replicate (length params + 1) 0) = Inr s' \<and> P m s'"
    using init
  proof (rule efold_upt_total)
    show "0 \<le> m" by simp
  next
    fix k t assume "k < m" "P k t"
    then show "\<exists>t'. index_group ls ds params k t = Inr t' \<and> P (Suc k) t'" by (rule step)
  qed
  then obtain a3 idx counts where
    run: "efold (index_group ls ds params) [0..<m]
            (0, replicate (length ls) 0, replicate (length params + 1) 0) = Inr (a3, idx, counts)"
    and Pm: "P m (a3, idx, counts)" by auto
  from Pm have lc: "length counts = Suc m" and tk: "take (Suc m) counts = 0 # take m sizes"
    and sl: "\<forall>j<m. slice idx (A j) (A (Suc j)) = group_of ls ds (params ! j)"
    by (simp_all add: P_def)
  have "counts = 0 # sizes" using tk lc ls by simp
  then have c: "cumsum counts = offsets sizes" by (simp add: cumsum_counts)
  show ?thesis
    using run c sl unfolding m_def A_def sizes_def
    by (intro exI conjI) assumption+
qed

lemma write_features_total:
  assumes "has_shape ms k Xn" "i_sample < ms" "3 * i + 3 \<le> k"
  shows "\<exists>X'. write_features Xn i_sample i fs = Inr X'"
proof -
  obtain f1 f2 f3 where fs: "fs = (f1, f2, f3)" by (cases fs)
  have l: "i_sample < length Xn" "length (Xn ! i_sample) = k"
    using assms(1,2) by (simp_all add: has_shape_def list_all_length)
  have "set_slice (Xn ! i_sample) (3 * i) (3 * i + 3) [f1, f2, f3]
      = Inr (take (3 * i) (Xn ! i_sample) @ [f1, f2, f3] @ drop (3 * i + 3) (Xn ! i_sample))"
    using l assms(3) by (intro set_slice_fit) simp_all
  then show ?thesis by (simp add: write_features_def fs nth_e_def l)
qed

lemma apply_offsets_valid:
  assumes "valid_inputs X S up"
  shows "apply_offsets S
     = Inr (offsets (map2 (*) (n_channels S) (lengths S)), offsets (n_channels S))"
  using assms by (simp add: apply_offsets_def broadcast2_def valid_inputs_def)

lemma apply_shapelet_total:
  assumes S: "load_shapelets h refs = Inr S" and C: "get_cube h sa = Inr C"
    and lC: "length C = n_features X"
    and v: "valid_inputs X S up" and i: "i < length (lengths S)" and L: "lengths S ! i = L"
    and sh: "has_shape ms (3 * length (lengths S)) Xn" and s: "i_sample < ms"
  shows "\<exists>X'. apply_shapelet kern h refs sa (offsets (map2 (*) (n_channels S) (lengths S)))
            (offsets (n_channels S)) L i_sample i Xn = Inr X'"
proof -
  define prods where "prods = map2 (*) (n_channels S) (lengths S)"
  define o1 where "o1 = offsets prods"
  define o2 where "o2 = offsets (n_channels S)"
  have len: "length (n_channels S) = length (lengths S)"
    "length (threshold S) = length (lengths S)"
    "length (shp_values S) = sum_list prods"
    "length (channel_ids S) = sum_list (n_channels S)"
    using v by (simp_all add: valid_inputs_def prods_def)
  have lp: "length prods = length (lengths S)" by (simp add: prods_def len)
  have n1: "nth_e o2 i = Inr (o2 ! i)" "nth_e o2 (i + 1) = Inr (o2 ! (i + 1))"
    "nth_e o1 i = Inr (o1 ! i)" "nth_e o1 (i + 1) = Inr (o1 ! (i + 1))"
    "nth_e (n_channels S) i = Inr (n_channels S ! i)"
    "nth_e (threshold S) i = Inr (threshold S ! i)"
    using i by (simp_all add: nth_e_def o1_def o2_def lp len)
  have "o1 ! (i + 1) \<le> o1 ! length prods"
    unfolding o1_def using i lp by (intro offsets_mono) simp_all
  then have hi: "o1 ! (i + 1) \<le> length (shp_values S)"
    by (simp add: o1_def offsets_last len)
  have d: "o1 ! (i + 1) - o1 ! i = n_channels S ! i * L"
    using i lp len L by (simp add: o1_def offsets_Suc prods_def)
  have ls: "length (slice (shp_values S) (o1 ! i) (o1 ! (i + 1))) = n_channels S ! i * L"
    using length_slice [OF hi, of "o1 ! i"] d by simp
  obtain vals where rs: "reshape2 (slice (shp_values S) (o1 ! i) (o1 ! (i + 1)))
      (n_channels S ! i) L = Inr vals"
    using ls by (simp add: reshape2_def)
  have "\<exists>sel. emap (nth_e C) (slice (channel_ids S) (o2 ! i) (o2 ! (i + 1))) = Inr sel"
  proof (rule emap_total)
    fix c assume "c \<in> set (slice (channel_ids S) (o2 ! i) (o2 ! (i + 1)))"
    then have "c \<in> set (channel_ids S)" by (rule subsetD [OF set_slice_subset])
    then have "c < n_features X" using v by (auto simp: valid_inputs_def list_all_iff)
    then show "\<exists>y. nth_e C c = Inr y" by (simp add: nth_e_def lC)
  qed
  then obtain sel where em: "emap (nth_e C) (slice (channel_ids S) (o2 ! i) (o2 ! (i + 1)))
      = Inr sel" by blast
  have "3 * i + 3 \<le> 3 * length (lengths S)" using i by simp
  from write_features_total [OF sh s this]
  obtain X' where wf: "write_features Xn i_sample i (kern sel vals (threshold S ! i)) = Inr X'"
    by blast
  have "apply_shapelet kern h refs sa o1 o2 L i_sample i Xn = Inr X'"
    unfolding apply_shapelet_def
    by (simp only: S C bind_e_Inr n1 rs em wf)
  then show ?thesis unfolding o1_def o2_def prods_def by blast
qed

lemma apply_shapelets_total:
  assumes S: "load_shapelets h refs = Inr S" and C: "get_cube h sa = Inr C"
    and lC: "length C = n_features X"
    and v: "valid_inputs X S up"
    and idx: "\<forall>i\<in>set idx. i < length (lengths S) \<and> lengths S ! i = L"
    and sh: "has_shape ms (3 * length (lengths S)) Xn" and s: "i_sample < ms"
  shows "\<exists>X'. efold (apply_shapelet kern h refs sa (offsets (map2 (*) (n_channels S) (lengths S)))
            (offsets (n_channels S)) L i_sample) idx Xn = Inr X'
          \<and> has_shape ms (3 * length (lengths S)) X'"
  using sh
proof (rule efold_total)
  fix i t assume i: "i \<in> set idx" and t: "has_shape ms (3 * length (lengths S)) t"
  have il: "i < length (lengths S)" and iL: "lengths S ! i = L" using idx i by auto
  from apply_shapelet_total [OF S C lC v il iL t s]
  obtain X' where r: "apply_shapelet kern h refs sa (offsets (map2 (*) (n_channels S) (lengths S)))
            (offsets (n_channels S)) L i_sample i t = Inr X'" by blast
  from apply_shapelet_shape [OF r t] r
  show "\<exists>t'. apply_shapelet kern h refs sa (offsets (map2 (*) (n_channels S) (lengths S)))
            (offsets (n_channels S)) L i_sample i t = Inr t'
          \<and> has_shape ms (3 * length (lengths S)) t'" by blast
qed

lemma with_flag_total:
  assumes "\<forall>x\<in>set idx. x < length nrm"
  shows "\<exists>r. with_flag nrm idx flag = Inr r \<and> set r \<subseteq> set idx"
proof -
  have "\<exists>fl. emap (nth_e nrm) idx = Inr fl"
    by (rule emap_total) (simp add: nth_e_def assms)
  then obtain fl where fl: "emap (nth_e nrm) idx = Inr fl" by blast
  show ?thesis by (auto simp: with_flag_def fl)
qed

lemma z_normalize_length: "length (z_normalize v) = length v"
  by (simp add: z_normalize_def)

lemma normalize_window_total:
  assumes "get_cube t sa = Inr C'" "i < length C'" "j < length (C' ! i)"
  shows "\<exists>t'. normalize_window sa i j t = Inr t'
     \<and> get_cube t' sa = Inr (C'[i := (C' ! i)[j := z_normalize (C' ! i ! j)]])"
  using assms
  by (simp add: normalize_window_def write_window_def nth_e_def z_normalize_length get_cube_def)

lemma normalize_strides_total:
  assumes C: "get_cube h sa = Inr C"
  shows "\<exists>h' C'. normalize_strides sa h = Inr h' \<and> get_cube h' sa = Inr C'
           \<and> length C' = length C"
proof -
  define Q where "Q = (\<lambda>t. \<exists>C'. get_cube t sa = Inr C' \<and> length C' = length C
                         \<and> (\<forall>i<length C. length (C' ! i) = length (C ! i)))"
  have Q0: "Q h" using C by (auto simp: Q_def)
  have stepj: "\<exists>t'. normalize_window sa i j t = Inr t' \<and> Q t'"
    if "i < length C" "j < length (C ! i)" "Q t" for i j t
  proof -
    from that(3) obtain C' where c: "get_cube t sa = Inr C'" "length C' = length C"
      "\<forall>i<length C. length (C' ! i) = length (C ! i)" by (auto simp: Q_def)
    have i': "i < length C'" using that(1) c(2) by simp
    have j': "j < length (C' ! i)" using that c(3) by simp
    from normalize_window_total [OF c(1) i' j'] obtain t' where
      t': "normalize_window sa i j t = Inr t'"
      "get_cube t' sa = Inr (C'[i := (C' ! i)[j := z_normalize (C' ! i ! j)]])" by blast
    have "length (C'[i := (C' ! i)[j := z_normalize (C' ! i ! j)]] ! ia) = length (C ! ia)"
      if "ia < length C" for ia
      using that c(2,3) i' by (cases "ia = i") (simp_all add: nth_list_update)
    then have "Q t'" unfolding Q_def using t'(2) c(2) by auto
    then show ?thesis using t'(1) by blast
  qed
  have stepi: "\<exists>t'. efold (normalize_window sa i) [0..<length (C ! i)] t = Inr t' \<and> Q t'"
    if "i < length C" "Q t" for i t
    using that(2)
  proof (rule efold_total)
    fix j u assume "j \<in> set [0..<length (C ! i)]" "Q u"
    then show "\<exists>t'. normalize_window sa i j u = Inr t' \<and> Q t'"
      using stepj [OF that(1), of j u] by simp
  qed
  have "\<exists>h'. efold (\<lambda>i. efold (normalize_window sa i) [0..<length (C ! i)]) [0..<length C] h
           = Inr h' \<and> Q h'"
    using Q0
  proof (rule efold_total)
    fix i u assume "i \<in> set [0..<length C]" "Q u"
    then show "\<exists>t'. efold (normalize_window sa i) [0..<length (C ! i)] u = Inr t' \<and> Q t'"
      using stepi [of i u] by simp
  qed
  then obtain h' where "normalize_strides sa h = Inr h'" "Q h'"
    using C by (auto simp: normalize_strides_def)
  then show ?thesis unfolding Q_def by blast
qed

lemma apply_group_total:
  assumes S: "load_shapelets h refs = Inr S" and X: "get_tensor h xa = Inr X"
    and v: "valid_inputs X S up" and xa: "xa < next_free h"
    and refs: "refs_below (next_free h) refs"
    and k: "kept (next_free h) h hc"
    and sh: "has_shape (n_samples X) (3 * length (lengths S)) Xn"
    and s: "i_sample < n_samples X"
    and g: "g < length params"
    and pz: "set params \<subseteq> set (zip (lengths S) (dilations S))"
    and ln: "length nsp = Suc (length params)"
    and sl: "slice idx (nsp ! g) (nsp ! (g + 1))
               = group_of (lengths S) (dilations S) (params ! g)"
  shows "\<exists>X' h'. apply_group kern xa refs up params idx nsp
            (offsets (map2 (*) (n_channels S) (lengths S))) (offsets (n_channels S))
            i_sample g (Xn, hc) = Inr (X', h')"
proof -
  let ?b = "next_free h"
  let ?o1 = "offsets (map2 (*) (n_channels S) (lengths S))"
  let ?o2 = "offsets (n_channels S)"
  obtain L d where p: "params ! g = (L, d)" by (cases "params ! g")
  have "(L, d) \<in> set (zip (lengths S) (dilations S))" using pz g p nth_mem by fastforce
  then have dpos: "0 < d_shape_of up (n_timestamps X) L d"
    using v by (auto simp: valid_inputs_def list_all_iff)
  have Xc: "get_tensor hc xa = Inr X" using kept_get_tensor [OF k xa] X by simp
  define C0 where "C0 = map (\<lambda>c. map (\<lambda>p. window X i_sample c p L d up)
                         [0..<nat (d_shape_of up (n_timestamps X) L d)]) [0..<n_features X]"
  define sa where "sa = next_free hc"
  define h1 where "h1 = hc\<lparr>store := (store hc)(sa \<mapsto> Cube C0), next_free := Suc sa\<rparr>"
  have gs: "generate_strides_2D hc xa i_sample L d up = Inr (sa, h1)"
    using s dpos by (simp add: generate_strides_2D_def Xc alloc_def C0_def sa_def h1_def)
  have le: "?b \<le> sa" using k by (simp add: kept_def sa_def)
  have k1: "kept ?b h h1" using k le by (simp add: kept_def h1_def sa_def)
  have S1: "load_shapelets h1 refs = Inr S" using kept_load_shapelets [OF k1 refs] S by simp
  have C1: "get_cube h1 sa = Inr C0" by (simp add: get_cube_def h1_def)
  have lC: "length C0 = n_features X" by (simp add: C0_def)
  have n: "nth_e nsp g = Inr (nsp ! g)" "nth_e nsp (g + 1) = Inr (nsp ! (g + 1))"
    "nth_e params g = Inr (L, d)"
    using g ln p by (simp_all add: nth_e_def)
  let ?G = "slice idx (nsp ! g) (nsp ! (g + 1))"
  have G: "\<forall>i\<in>set ?G. i < length (lengths S) \<and> lengths S ! i = L"
    unfolding sl p by (auto dest: group_of_mem)
  have lf: "length (normalize_flags S) = length (lengths S)"
    using v by (simp add: valid_inputs_def)
  have Gn: "\<forall>i\<in>set ?G. i < length (normalize_flags S)" using G lf by simp
  from with_flag_total [OF Gn, of False] obtain idx_no where
    wfF: "with_flag (normalize_flags S) ?G False = Inr idx_no" and sF: "set idx_no \<subseteq> set ?G"
    by blast
  from with_flag_total [OF Gn, of True] obtain idx_norm where
    wfT: "with_flag (normalize_flags S) ?G True = Inr idx_norm" and sT: "set idx_norm \<subseteq> set ?G"
    by blast
  have GF: "\<forall>i\<in>set idx_no. i < length (lengths S) \<and> lengths S ! i = L" using G sF by blast
  have GT: "\<forall>i\<in>set idx_norm. i < length (lengths S) \<and> lengths S ! i = L" using G sT by blast
  from apply_shapelets_total [OF S1 C1 lC v GF sh s, of kern] obtain X1 where
    run1: "efold (apply_shapelet kern h1 refs sa ?o1 ?o2 L i_sample) idx_no Xn = Inr X1"
    and sh1: "has_shape (n_samples X) (3 * length (lengths S)) X1" by blast
  show ?thesis
  proof (cases "idx_norm = []")
    case True
    have "apply_group kern xa refs up params idx nsp ?o1 ?o2 i_sample g (Xn, hc) = Inr (X1, h1)"
      unfolding apply_group_def
      by (simp only: prod.case n gs S1 bind_e_Inr wfF wfT run1 True simp_thms if_False)
    then show ?thesis by blast
  next
    case False
    from normalize_strides_total [OF C1] obtain h2 C2 where
      ns: "normalize_strides sa h1 = Inr h2" and C2: "get_cube h2 sa = Inr C2"
      and lC2: "length C2 = length C0" by blast
    have "?b \<le> next_free h1" using le by (simp add: h1_def)
    with ns le have "kept ?b h1 h2" by (rule normalize_strides_kept)
    with k1 have k2: "kept ?b h h2" by (rule kept_trans)
    have S2: "load_shapelets h2 refs = Inr S" using kept_load_shapelets [OF k2 refs] S by simp
    have lC2': "length C2 = n_features X" using lC2 lC by simp
    from apply_shapelets_total [OF S2 C2 lC2' v GT sh1 s, of kern] obtain X2 where
      run2: "efold (apply_shapelet kern h2 refs sa ?o1 ?o2 L i_sample) idx_norm X1 = Inr X2"
      by blast
    have "apply_group kern xa refs up params idx nsp ?o1 ?o2 i_sample g (Xn, hc) = Inr (X2, h2)"
      unfolding apply_group_def
      by (simp only: prod.case n gs S1 bind_e_Inr wfF wfT run1 False simp_thms if_True ns run2)
    then show ?thesis by blast
  qed
qed

lemma apply_loops_total:
  assumes S: "load_shapelets h refs = Inr S" and X: "get_tensor h xa = Inr X"
    and v: "valid_inputs X S up" and xa: "xa < next_free h"
    and refs: "refs_below (next_free h) refs"
    and pz: "set params \<subseteq> set (zip (lengths S) (dilations S))"
    and ln: "length nsp = Suc (length params)"
    and sl: "\<forall>g<length params. slice idx (nsp ! g) (nsp ! (g + 1))
               = group_of (lengths S) (dilations S) (params ! g)"
  shows "\<exists>X' h'. efold (\<lambda>i_sample.
                efold (apply_group kern xa refs up params idx nsp
                         (offsets (map2 (*) (n_channels S) (lengths S))) (offsets (n_channels S))
                         i_sample)
                  [0..<length nsp - 1])
         [0..<n_samples X]
         (replicate (n_samples X) (replicate (3 * length (lengths S)) 0), h) = Inr (X', h')"
proof -
  let ?o1 = "offsets (map2 (*) (n_channels S) (lengths S))"
  let ?o2 = "offsets (n_channels S)"
  define Q where "Q = (\<lambda>t :: real list list \<times> heap.
     has_shape (n_samples X) (3 * length (lengths S)) (fst t) \<and> kept (next_free h) h (snd t))"
  have Q0: "Q (replicate (n_samples X) (replicate (3 * length (lengths S)) 0), h)"
    by (simp add: Q_def has_shape_def list_all_length kept_refl)
  have step: "\<exists>t'. apply_group kern xa refs up params idx nsp ?o1 ?o2 i_sample g t = Inr t' \<and> Q t'"
    if i: "i_sample < n_samples X" and g: "g < length params" and Qt: "Q t" for i_sample g t
  proof -
    obtain Xa ha where t: "t = (Xa, ha)" by (cases t)
    have sh: "has_shape (n_samples X) (3 * length (lengths S)) Xa"
      and k: "kept (next_free h) h ha" using Qt by (simp_all add: Q_def t)
    have slg: "slice idx (nsp ! g) (nsp ! (g + 1))
               = group_of (lengths S) (dilations S) (params ! g)" using sl g by blast
    from apply_group_total [OF S X v xa refs k sh i g pz ln slg, of kern]
    obtain X' h' where
      r: "apply_group kern xa refs up params idx nsp ?o1 ?o2 i_sample g (Xa, ha) = Inr (X', h')"
      by blast
    have sh': "has_shape (n_samples X) (3 * length (lengths S)) X'"
      using r sh by (rule apply_group_shape)
    have "next_free h \<le> next_free ha" using k by (simp add: kept_def)
    with r have "kept (next_free h) ha h'" by (rule apply_group_kept)
    with k have "kept (next_free h) h h'" by (rule kept_trans)
    with sh' have "Q (X', h')" by (simp add: Q_def)
    then show ?thesis using r unfolding t by blast
  qed
  have inner: "\<exists>t'. efold (apply_group kern xa refs up params idx nsp ?o1 ?o2 i_sample)
                      [0..<length nsp - 1] t = Inr t' \<and> Q t'"
    if i: "i_sample < n_samples X" and Qt: "Q t" for i_sample t
    using Qt
  proof (rule efold_total)
    fix g u assume "g \<in> set [0..<length nsp - 1]" "Q u"
    then show "\<exists>t'. apply_group kern xa refs up params idx nsp ?o1 ?o2 i_sample g u = Inr t'
                 \<and> Q t'"
      using step [OF i, of g u] ln by simp
  qed
  have "\<exists>t'. efold (\<lambda>i_sample.
                efold (apply_group kern xa refs up params idx nsp ?o1 ?o2 i_sample)
                  [0..<length nsp - 1])
         [0..<n_samples X]
         (replicate (n_samples X) (replicate (3 * length (lengths S)) 0), h) = Inr t' \<and> Q t'"
    using Q0
  proof (rule efold_total)
    fix i u assume "i \<in> set [0..<n_samples X]" "Q u"
    then show "\<exists>t'. efold (apply_group kern xa refs up params idx nsp ?o1 ?o2 i)
                      [0..<length nsp - 1] u = Inr t' \<and> Q t'"
      using inner [of i u] by simp
  qed
  then show ?thesis by (metis prod.collapse)
qed

lemma apply_total:
  assumes S: "load_shapelets h refs = Inr S" and X: "get_tensor h xa = Inr X"
    and v: "valid_inputs X S up" and xa: "xa < next_free h"
    and refs: "refs_below (next_free h) refs"
  shows "\<exists>X_new h'. M_SL_apply_all_shapelets kern h xa refs up = Inr (X_new, h')
           \<and> has_shape (n_samples X) (3 * length (lengths S)) X_new"
proof -
  let ?ls = "lengths S" and ?ds = "dilations S"
  let ?params = "combinations_1d ?ls ?ds"
  let ?sizes = "map (\<lambda>p. length (group_of ?ls ?ds p)) ?params"
  have len: "length ?ds = length ?ls" using v by (simp add: valid_inputs_def)
  have dist: "distinct ?params" by (simp add: combinations_1d_def)
  have pz: "set ?params \<subseteq> set (zip ?ls ?ds)" by (simp add: combinations_1d_def)
  from index_loop_total [OF len dist] obtain a3 idx counts where
    run: "efold (index_group ?ls ?ds ?params) [0..<length ?params]
        (0, replicate (length ?ls) 0, replicate (length ?params + 1) 0) = Inr (a3, idx, counts)"
    and c: "cumsum counts = offsets ?sizes"
    and sl: "\<forall>j<length ?params. slice idx (offsets ?sizes ! j) (offsets ?sizes ! Suc j)
          = group_of ?ls ?ds (?params ! j)"
    by blast
  have ln: "length (cumsum counts) = Suc (length ?params)" unfolding c by simp
  have sl': "\<forall>g<length ?params. slice idx (cumsum counts ! g) (cumsum counts ! (g + 1))
               = group_of ?ls ?ds (?params ! g)"
    unfolding c using sl by simp
  from apply_loops_total [OF S X v xa refs pz ln sl', of kern] obtain X' h' where
    loops: "efold (\<lambda>i_sample.
                efold (apply_group kern xa refs up ?params idx (cumsum counts)
                         (offsets (map2 (*) (n_channels S) ?ls)) (offsets (n_channels S))
                         i_sample)
                  [0..<length (cumsum counts) - 1])
         [0..<n_samples X]
         (replicate (n_samples X) (replicate (3 * length ?ls) 0), h) = Inr (X', h')"
    by blast
  have r: "M_SL_apply_all_shapelets kern h xa refs up = Inr (X', h')"
    unfolding M_SL_apply_all_shapelets_def
    by (simp only: S X bind_e_Inr Let_def apply_offsets_valid [OF v] prod.case run loops)
  from apply_post [OF r] S X
  have "has_shape (n_samples X) (3 * length ?ls) X'" by auto
  with r show ?thesis by blast
qed

section \<open>The output of the application\<close>

lemma has_shape_no_columns: "has_shape m 0 Xn \<Longrightarrow> Xn = replicate m []"
proof -
  assume a: "has_shape m 0 Xn"
  then have "\<forall>r\<in>set Xn. r = []" by (auto simp: has_shape_def list_all_iff)
  then have "replicate (length Xn) [] = Xn" by (rule replicate_length_same)
  then show ?thesis using a by (simp add: has_shape_def)
qed

lemma ex_load: "load_shapelets ex_heap ex_refs = Inr ex_S"
  by (simp add: load_shapelets_def get_floats_def get_ints_def get_bools_def ex_heap_def
        ex_refs_def ex_S_def)

lemma ex_valid: "valid_inputs ex_X ex_S False"
  by (simp add: valid_inputs_def ex_S_def ex_X_def d_shape_of_def)

text \<open>
  C5. For every valid input, a series tensor \<open>X\<close> and a shapelet set \<open>S\<close> valid for it,
  held by the store at addresses in use, the application returns, and what it returns
  is a matrix of \<open>n_samples\<close> rows of \<open>3 * n_shapelets\<close> features each, whatever the
  kernel and the phase flag; with no shapelet it is the matrix of \<open>n_samples\<close> empty rows.
\<close>

theorem apply_output_shape:
  assumes S: "load_shapelets h refs = Inr S" and X: "get_tensor h xa = Inr X"
    and v: "valid_inputs X S up" and xa: "xa < next_free h"
    and refs: "refs_below (next_free h) refs"
  shows "\<exists>X_new h'. M_SL_apply_all_shapelets kern h xa refs up = Inr (X_new, h')
           \<and> has_shape (n_samples X) (3 * length (lengths S)) X_new
           \<and> (lengths S = [] \<longrightarrow> X_new = replicate (n_samples X) [])"
proof -
  from apply_total [OF S X v xa refs, of kern] obtain X_new h' where
    r: "M_SL_apply_all_shapelets kern h xa refs up = Inr (X_new, h')"
    and sh: "has_shape (n_samples X) (3 * length (lengths S)) X_new" by blast
  have "X_new = replicate (n_samples X) []" if "lengths S = []"
    using sh that by (simp add: has_shape_no_columns)
  with r sh show ?thesis by blast
qed

theorem apply_output_shape_witness:
  "load_shapelets ex_heap ex_refs = Inr ex_S \<and> get_tensor ex_heap 0 = Inr ex_X
   \<and> valid_inputs ex_X ex_S False \<and> 0 < next_free ex_heap
   \<and> refs_below (next_free ex_heap) ex_refs
   \<and> M_SL_apply_all_shapelets ex_kernel ex_heap 0 ex_refs False = Inr ([[1, 2, 3]], ex_heap')
   \<and> has_shape (n_samples ex_X) (3 * length (lengths ex_S)) [[1, 2, 3]]
   \<and> n_samples ex_X = 1 \<and> length (lengths ex_S) = 1"
proof -
  have t: "get_tensor ex_heap 0 = Inr ex_X" by (simp add: get_tensor_def ex_heap_def)
  have a: "0 < next_free ex_heap" by (simp add: ex_heap_def)
  from apply_output_shape [OF ex_load t ex_valid a ex_refs_below, of ex_kernel]
  obtain X_new h' where
    r: "M_SL_apply_all_shapelets ex_kernel ex_heap 0 ex_refs False = Inr (X_new, h')"
    and sh: "has_shape (n_samples ex_X) (3 * length (lengths ex_S)) X_new" by blast
  from r have "X_new = [[1, 2, 3]]" unfolding ex_apply by simp
  with sh have "has_shape (n_samples ex_X) (3 * length (lengths ex_S)) [[1, 2, 3]]" by simp
  moreover have "n_samples ex_X = 1 \<and> length (lengths ex_S) = 1"
    by (simp add: ex_X_def ex_S_def)
  ultimately show ?thesis using ex_load t ex_valid a ex_refs_below ex_apply by blast
qed

end
